theory Spec2Isabelle
  imports Main "HOL-Library.Sublist" "HOL-Library.AList"
begin

section \<open>Python text primitives used by TxtinoutReader\<close>

text \<open>
  A Python \<open>str\<close> is modelled as a \<open>string\<close> whose characters are the code points
  below 256.  A text file is the string \<open>open(path).read()\<close> would return, with
  \<open>'\n'\<close> (code 10) as the only line terminator.
\<close>

abbreviation NL :: char where
  "NL \<equiv> CHR 0x0A"

text \<open>\<open>str.isspace\<close> on one character (the code points below 256 that Python treats as
  whitespace in \<open>split()\<close>, \<open>strip()\<close> and \<open>rstrip()\<close>).\<close>

definition isspace :: "char \<Rightarrow> bool" where
  "isspace c = (c \<in> set [CHR 0x09, CHR 0x0A, CHR 0x0B, CHR 0x0C, CHR 0x0D,
                          CHR 0x1C, CHR 0x1D, CHR 0x1E, CHR 0x1F, CHR 0x20,
                          CHR 0x85, CHR 0xA0])"

text \<open>\<open>s.startswith(p)\<close>.\<close>

definition startswith :: "string \<Rightarrow> string \<Rightarrow> bool" where
  "startswith s p = (take (length p) s = p)"

text \<open>\<open>s.endswith(p)\<close>.\<close>

definition endswith :: "string \<Rightarrow> string \<Rightarrow> bool" where
  "endswith s p = (length p \<le> length s \<and> drop (length s - length p) s = p)"

text \<open>\<open>s.ljust(w)\<close> and the format field \<open>{: >w}\<close> (right-justified, padded with
  spaces; a value longer than the field is not truncated).\<close>

definition ljust :: "nat \<Rightarrow> string \<Rightarrow> string" where
  "ljust w s = s @ replicate (w - length s) CHR '' ''"

definition rjust :: "nat \<Rightarrow> string \<Rightarrow> string" where
  "rjust w s = replicate (w - length s) CHR '' '' @ s"

text \<open>\<open>s.rstrip()\<close>, \<open>s.lstrip()\<close> and \<open>s.strip()\<close>.\<close>

definition rstrip :: "string \<Rightarrow> string" where
  "rstrip s = rev (dropWhile isspace (rev s))"

definition lstrip :: "string \<Rightarrow> string" where
  "lstrip s = dropWhile isspace s"

definition strip :: "string \<Rightarrow> string" where
  "strip s = rstrip (lstrip s)"

text \<open>\<open>file.readlines()\<close>, which is also what \<open>for line in file\<close> iterates over: every
  line keeps its terminating newline; a last line without one is returned as it is.\<close>

fun readlines :: "string \<Rightarrow> string list" where
  "readlines [] = []"
| "readlines (c # cs) =
     (if c = NL then [c] # readlines cs
      else (case readlines cs of
              [] \<Rightarrow> [[c]]
            | l # ls \<Rightarrow> (c # l) # ls))"

text \<open>\<open>s.split()\<close>: the maximal runs of non-whitespace characters.\<close>

fun split_ws :: "string \<Rightarrow> string list" where
  "split_ws [] = []"
| "split_ws (c # cs) =
     (if isspace c then split_ws cs
      else (case cs of
              [] \<Rightarrow> [[c]]
            | d # _ \<Rightarrow>
                if isspace d then [c] # split_ws cs
                else (case split_ws cs of
                        [] \<Rightarrow> [[c]]
                      | w # ws \<Rightarrow> (c # w) # ws)))"

text \<open>\<open>s.rsplit(sep, maxsplit=1)[0]\<close> for a one-character separator: the part before
  the last separator, or all of \<open>s\<close> when it has none.\<close>

definition rsplit1_head :: "char \<Rightarrow> string \<Rightarrow> string" where
  "rsplit1_head sep s =
     (if sep \<in> set s then rev (tl (dropWhile (\<lambda>c. c \<noteq> sep) (rev s))) else s)"

text \<open>\<open>os.path.splitext(p)[1]\<close>, following \<open>genericpath._splitext\<close>: the extension
  starts at the last dot of the last path component, unless only dots precede it
  there.  \<open>seps\<close> are the path separators of the platform (\<open>/\<close> for posixpath,
  \<open>\\<close> and \<open>/\<close> for ntpath).\<close>

definition splitext_ext :: "char list \<Rightarrow> string \<Rightarrow> string" where
  "splitext_ext seps p =
     (let base = rev (takeWhile (\<lambda>c. c \<notin> set seps) (rev p));
          ext = rev (takeWhile (\<lambda>c. c \<noteq> CHR ''.'') (rev base));
          stem = take (length base - length ext - 1) base
      in if CHR ''.'' \<in> set base \<and> (\<exists>c \<in> set stem. c \<noteq> CHR ''.'')
         then CHR ''.'' # ext else [])"

section \<open>ConfigFilePatcher: print.prt\<close>

text \<open>\<open>_build_line_to_add\<close>: the object name in a 29-character field, then the four
  flags as \<open>y\<close>/\<open>n\<close> in 14-character fields (in the order daily, monthly, yearly,
  avann of the dictionary), trailing whitespace removed, a newline appended.\<close>

definition build_line_to_add :: "string \<Rightarrow> bool \<Rightarrow> bool \<Rightarrow> bool \<Rightarrow> bool \<Rightarrow> string" where
  "build_line_to_add obj daily monthly yearly avann =
     rstrip (foldl (\<lambda>arg_to_add v.
                      arg_to_add @ ljust 14 (if v then ''y'' else ''n''))
                   (ljust 29 obj) [daily, monthly, yearly, avann])
     @ [NL]"

text \<open>The first lines of \<open>enable_object_in_print_prt\<close>: a name with an extension is a
  file name, and loses what follows its last underscore.\<close>

definition object_of :: "char list \<Rightarrow> string \<Rightarrow> string" where
  "object_of seps obj =
     (if splitext_ext seps obj \<noteq> [] then rsplit1_head CHR ''_'' obj else obj)"

text \<open>The loop of \<open>enable_object_in_print_prt\<close> over the lines of the file, with its two
  variables \<open>new_print_prt\<close> and \<open>found\<close>.\<close>

fun scan_print_prt :: "string \<Rightarrow> string \<Rightarrow> string list \<Rightarrow> string \<times> bool \<Rightarrow> string \<times> bool" where
  "scan_print_prt arg_to_add built [] (new_print_prt, found) = (new_print_prt, found)"
| "scan_print_prt arg_to_add built (line # rest) (new_print_prt, found) =
     (if \<not> startswith line (arg_to_add @ '' '')
      then scan_print_prt arg_to_add built rest (new_print_prt @ line, found)
      else scan_print_prt arg_to_add built rest (new_print_prt @ built, True))"

text \<open>\<open>enable_object_in_print_prt\<close>, from the text of \<open>print.prt\<close> to the text written
  back to it.\<close>

definition enable_object_in_print_prt ::
    "char list \<Rightarrow> string \<Rightarrow> bool \<Rightarrow> bool \<Rightarrow> bool \<Rightarrow> bool \<Rightarrow> string \<Rightarrow> string" where
  "enable_object_in_print_prt seps obj daily monthly yearly avann print_prt =
     (let arg_to_add = object_of seps obj;
          built = build_line_to_add arg_to_add daily monthly yearly avann;
          (new_print_prt, found) =
             scan_print_prt arg_to_add built (readlines print_prt) ([], False)
      in if \<not> found then new_print_prt @ built else new_print_prt)"

definition complete_line :: "string \<Rightarrow> bool" where
  "complete_line l = (l \<noteq> [] \<and> last l = NL \<and> NL \<notin> set (butlast l))"

fun lines_ok :: "string list \<Rightarrow> bool" where
  "lines_ok [] = True"
| "lines_ok [l] = (l \<noteq> [] \<and> NL \<notin> set (butlast l))"
| "lines_ok (l # l' # ls) = (complete_line l \<and> lines_ok (l' # ls))"

definition replace_matching :: "string \<Rightarrow> string \<Rightarrow> string \<Rightarrow> string" where
  "replace_matching arg_to_add built line =
     (if startswith line (arg_to_add @ '' '') then built else line)"

text \<open>The exceptions the modelled code can raise.  \<open>Unmodelled\<close> is not an exception of
  Python: it marks a call this model does not cover (a regular expression or a
  replacement template outside the modelled fragment of \<open>re\<close>).\<close>

datatype pyerr =
    IndexError | ValueError | TypeError string | AttributeError
  | FileNotFoundError | FileExistsError | NotADirectoryError | IsADirectoryError
  | PermissionError | SameFileError | Unmodelled

definition enable_disable_csv_print :: "bool \<Rightarrow> string \<Rightarrow> pyerr + string" where
  "enable_disable_csv_print enable print_prt =
     (let lines = readlines print_prt in
      if length lines < 7 then Inl IndexError
      else Inr (concat (lines[6 := (if enable then ''y'' else ''n'') @ drop 1 (lines ! 6)])))"

definition enable_csv_print :: "string \<Rightarrow> pyerr + string" where
  "enable_csv_print print_prt = enable_disable_csv_print True print_prt"

definition disable_csv_print :: "string \<Rightarrow> pyerr + string" where
  "disable_csv_print print_prt = enable_disable_csv_print False print_prt"

definition text_of :: "string list \<Rightarrow> string" where
  "text_of ls = concat (map (\<lambda>l. l @ [NL]) ls)"

text \<open>The values the code formats with \<open>str\<close>: integers and strings.  A float is given
  as \<open>PStr\<close> of the text \<open>str\<close> returns for it.\<close>

datatype pyval = PInt int | PStr string

fun str_nat :: "nat \<Rightarrow> string" where
  "str_nat n = (if n < 10 then [''0123456789'' ! n]
                else str_nat (n div 10) @ [''0123456789'' ! (n mod 10)])"

declare str_nat.simps [simp del]

definition str_int :: "int \<Rightarrow> string" where
  "str_int i = (if i < 0 then CHR ''-'' # str_nat (nat (- i)) else str_nat (nat i))"

fun str_of :: "pyval \<Rightarrow> string" where
  "str_of (PInt i) = str_int i"
| "str_of (PStr s) = s"

record date =
  year :: nat
  month :: nat
  day :: nat

definition is_digit :: "char \<Rightarrow> bool" where
  "is_digit c = (c \<in> set ''0123456789'')"

definition digit_val :: "char \<Rightarrow> nat" where
  "digit_val c = of_char c - 48"

definition is_leap :: "nat \<Rightarrow> bool" where
  "is_leap y = (y mod 4 = 0 \<and> (y mod 100 \<noteq> 0 \<or> y mod 400 = 0))"

definition days_in_month :: "nat \<Rightarrow> nat \<Rightarrow> nat" where
  "days_in_month y m =
     (if m = 2 \<and> is_leap y then 29
      else [31, 28, 31, 30, 31, 30, 31, 31, 30, 31, 30, 31] ! (m - 1))"

text \<open>The month of \<open>%m\<close> after the \<open>-\<close> that follows the year, up to the \<open>-\<close> before
  the day: the alternatives \<open>1[0-2]|0[1-9]|[1-9]\<close> in this order.\<close>

fun match_month :: "string \<Rightarrow> (nat \<times> string) option" where
  "match_month (a # b # c # rest) =
     (if a = CHR ''1'' \<and> b \<in> set ''012'' \<and> c = CHR ''-'' then Some (10 + digit_val b, rest)
      else if a = CHR ''0'' \<and> b \<in> set ''123456789'' \<and> c = CHR ''-'' then Some (digit_val b, rest)
      else if a \<in> set ''123456789'' \<and> b = CHR ''-'' then Some (digit_val a, c # rest)
      else None)"
| "match_month [a, b] =
     (if a \<in> set ''123456789'' \<and> b = CHR ''-'' then Some (digit_val a, []) else None)"
| "match_month _ = None"

text \<open>The day of \<open>%d\<close>: the alternatives \<open>3[0-1]|[1-2]\d|0[1-9]|[1-9]| [1-9]\<close> in this
  order; what it leaves is the unconverted rest.\<close>

fun match_day :: "string \<Rightarrow> (nat \<times> string) option" where
  "match_day (a # b # rest) =
     (if a = CHR ''3'' \<and> b \<in> set ''01'' then Some (30 + digit_val b, rest)
      else if a \<in> set ''12'' \<and> is_digit b then Some (10 * digit_val a + digit_val b, rest)
      else if a = CHR ''0'' \<and> b \<in> set ''123456789'' then Some (digit_val b, rest)
      else if a \<in> set ''123456789'' then Some (digit_val a, b # rest)
      else if a = CHR '' '' \<and> b \<in> set ''123456789'' then Some (digit_val b, rest)
      else None)"
| "match_day [a] = (if a \<in> set ''123456789'' then Some (digit_val a, []) else None)"
| "match_day [] = None"

text \<open>\<open>datetime.datetime.strptime(s, "%Y-%m-%d")\<close>.\<close>

fun strptime :: "string \<Rightarrow> pyerr + date" where
  "strptime (y1 # y2 # y3 # y4 # dash # rest) =
     (if \<not> (is_digit y1 \<and> is_digit y2 \<and> is_digit y3 \<and> is_digit y4 \<and> dash = CHR ''-'')
      then Inl ValueError
      else (case match_month rest of
              None \<Rightarrow> Inl ValueError
            | Some (m, rest') \<Rightarrow>
               (case match_day rest' of
                  None \<Rightarrow> Inl ValueError
                | Some (d, rest'') \<Rightarrow>
                    let y = 1000 * digit_val y1 + 100 * digit_val y2 + 10 * digit_val y3
                            + digit_val y4
                    in if rest'' \<noteq> [] \<or> y = 0 \<or> days_in_month y m < d then Inl ValueError
                       else Inr \<lparr>year = y, month = m, day = d\<rparr>)))"
| "strptime _ = Inl ValueError"

text \<open>\<open>timetuple().tm_yday\<close> and \<open>timetuple().tm_year\<close>.\<close>

definition tm_yday :: "date \<Rightarrow> int" where
  "tm_yday t = int (sum_list (map (days_in_month (year t)) [1 ..< month t]) + day t)"

definition tm_year :: "date \<Rightarrow> int" where
  "tm_year t = int (year t)"

text \<open>\<open>'{: >8} {: >10} {: >10} {: >10} {: >10} \n'.format(*elements)\<close>, for a list of at
  least five elements.\<close>

definition format_time_sim :: "pyval list \<Rightarrow> string" where
  "format_time_sim elements =
     rjust 8 (str_of (elements ! 0)) @ '' '' @ rjust 10 (str_of (elements ! 1)) @ '' ''
     @ rjust 10 (str_of (elements ! 2)) @ '' '' @ rjust 10 (str_of (elements ! 3)) @ '' ''
     @ rjust 10 (str_of (elements ! 4)) @ '' '' @ [NL]"

definition set_simulation_time :: "string \<Rightarrow> string \<Rightarrow> int \<Rightarrow> string \<Rightarrow> pyerr + string" where
  "set_simulation_time start_date end_date step time_sim =
     (case strptime start_date of
        Inl e \<Rightarrow> Inl e
      | Inr start \<Rightarrow>
         (case strptime end_date of
            Inl e \<Rightarrow> Inl e
          | Inr end_d \<Rightarrow>
              let day_start = tm_yday start;
                  year_start = tm_year start;
                  day_end = tm_yday end_d;
                  year_end = tm_year end_d;
                  lines = readlines time_sim
              in if length lines < 3 then Inl IndexError
                 else let year_line = lines ! 2;
                          elements = map PStr (split_ws year_line)
                      in if length elements < 5 then Inl IndexError
                         else let elements = elements[0 := PInt day_start, 1 := PInt year_start,
                                                      2 := PInt day_end, 3 := PInt year_end,
                                                      4 := PInt step];
                                  result_string = format_time_sim elements
                              in Inr (concat (lines[2 := result_string]))))"

section \<open>The file system and the state of a run\<close>

text \<open>
  A path is the list of its components from the root (paths are absolute and
  normalised); the file system is an association list from paths to nodes, the root
  being a directory that is always there.  A regular file holds its text.
\<close>

datatype node = File string | Dir

type_synonym path = "string list"

type_synonym filesystem = "(path \<times> node) list"

definition fs_lookup :: "filesystem \<Rightarrow> path \<Rightarrow> node option" where
  "fs_lookup fs p = (if p = [] then Some Dir else map_of fs p)"

definition isdir :: "filesystem \<Rightarrow> path \<Rightarrow> bool" where
  "isdir fs p = (fs_lookup fs p = Some Dir)"

definition isfile :: "filesystem \<Rightarrow> path \<Rightarrow> bool" where
  "isfile fs p = (case fs_lookup fs p of Some (File _) \<Rightarrow> True | _ \<Rightarrow> False)"

definition path_exists :: "filesystem \<Rightarrow> path \<Rightarrow> bool" where
  "path_exists fs p = (fs_lookup fs p \<noteq> None)"

definition entries :: "filesystem \<Rightarrow> path \<Rightarrow> string list" where
  "entries fs p = remdups (map (\<lambda>(q, _). last q) (filter (\<lambda>(q, _). q \<noteq> [] \<and> butlast q = p) fs))"

record world =
  files :: filesystem
  rng :: nat
  cwd :: path
  stdout :: "string list"

datatype 'a outcome = Return 'a | Raise pyerr | Hang

type_synonym 'a io = "world \<Rightarrow> 'a outcome \<times> world"

definition io_return :: "'a \<Rightarrow> 'a io" where
  "io_return a w = (Return a, w)"

definition io_raise :: "pyerr \<Rightarrow> 'a io" where
  "io_raise e w = (Raise e, w)"

definition io_bind :: "'a io \<Rightarrow> ('a \<Rightarrow> 'b io) \<Rightarrow> 'b io" where
  "io_bind m f w =
     (case m w of
        (Return a, w') \<Rightarrow> f a w'
      | (Raise e, w') \<Rightarrow> (Raise e, w')
      | (Hang, w') \<Rightarrow> (Hang, w'))"

definition io_then :: "unit io \<Rightarrow> 'b io \<Rightarrow> 'b io" where
  "io_then m k = io_bind m (\<lambda>_. k)"

text \<open>\<open>try: m except E: h\<close> for one exception \<open>E\<close>.\<close>

definition io_except :: "'a io \<Rightarrow> pyerr \<Rightarrow> 'a io \<Rightarrow> 'a io" where
  "io_except m e h w =
     (case m w of
        (Raise e', w') \<Rightarrow> if e' = e then h w' else (Raise e', w')
      | r \<Rightarrow> r)"

text \<open>The error of a system call on a path that is not there: \<open>ENOTDIR\<close> when the
  nearest ancestor that exists is a regular file, \<open>ENOENT\<close> otherwise.\<close>

function access_error :: "filesystem \<Rightarrow> path \<Rightarrow> pyerr" where
  "access_error fs p =
     (if p = [] then FileNotFoundError
      else (case fs_lookup fs (butlast p) of
              None \<Rightarrow> access_error fs (butlast p)
            | Some (File _) \<Rightarrow> NotADirectoryError
            | Some Dir \<Rightarrow> FileNotFoundError))"
  by pat_completeness auto
termination
  by (relation "measure (\<lambda>(fs, p). length p)") auto

declare access_error.simps [simp del]

text \<open>\<open>os.listdir(p)\<close>.\<close>

definition listdir :: "path \<Rightarrow> string list io" where
  "listdir p w =
     (case fs_lookup (files w) p of
        None \<Rightarrow> (Raise (access_error (files w) p), w)
      | Some (File _) \<Rightarrow> (Raise NotADirectoryError, w)
      | Some Dir \<Rightarrow> (Return (entries (files w) p), w))"

text \<open>\<open>os.mkdir(p)\<close>.\<close>

definition mkdir :: "path \<Rightarrow> unit io" where
  "mkdir p w =
     (if path_exists (files w) p then (Raise FileExistsError, w)
      else (case fs_lookup (files w) (butlast p) of
              Some Dir \<Rightarrow> (Return (), w\<lparr>files := AList.update p Dir (files w)\<rparr>)
            | _ \<Rightarrow> (Raise (access_error (files w) p), w)))"

text \<open>\<open>os.makedirs(name, exist_ok=True)\<close>, as the standard library writes it: the parent
  first when it is missing (an \<open>FileExistsError\<close> of that call is passed over), then
  \<open>mkdir\<close>, whose error is dropped when \<open>name\<close> is a directory.\<close>

function makedirs :: "path \<Rightarrow> unit io" where
  "makedirs name w =
     (case (if name \<noteq> [] \<and> \<not> path_exists (files w) (butlast name)
            then io_except (makedirs (butlast name)) FileExistsError (io_return ()) w
            else (Return (), w)) of
        (Return _, w1) \<Rightarrow>
          (case mkdir name w1 of
             (Raise e, w2) \<Rightarrow> if isdir (files w2) name then (Return (), w2) else (Raise e, w2)
           | r \<Rightarrow> r)
      | r \<Rightarrow> r)"
  by pat_completeness auto
termination
  by (relation "measure (\<lambda>(name, w). length name)") auto

declare makedirs.simps [simp del]

text \<open>\<open>open(p).read()\<close> and \<open>open(p, 'w').write(t)\<close>.\<close>

definition read_file :: "path \<Rightarrow> string io" where
  "read_file p w =
     (case fs_lookup (files w) p of
        None \<Rightarrow> (Raise (access_error (files w) p), w)
      | Some Dir \<Rightarrow> (Raise IsADirectoryError, w)
      | Some (File t) \<Rightarrow> (Return t, w))"

definition write_file :: "path \<Rightarrow> string \<Rightarrow> unit io" where
  "write_file p t w =
     (case fs_lookup (files w) p of
        Some Dir \<Rightarrow> (Raise IsADirectoryError, w)
      | Some (File _) \<Rightarrow> (Return (), w\<lparr>files := AList.update p (File t) (files w)\<rparr>)
      | None \<Rightarrow>
         (case fs_lookup (files w) (butlast p) of
            Some Dir \<Rightarrow> (Return (), w\<lparr>files := AList.update p (File t) (files w)\<rparr>)
          | _ \<Rightarrow> (Raise (access_error (files w) p), w)))"

text \<open>\<open>os.remove(p)\<close>.\<close>

definition remove :: "path \<Rightarrow> unit io" where
  "remove p w =
     (case fs_lookup (files w) p of
        None \<Rightarrow> (Raise (access_error (files w) p), w)
      | Some Dir \<Rightarrow> (Raise IsADirectoryError, w)
      | Some (File _) \<Rightarrow> (Return (), w\<lparr>files := AList.delete p (files w)\<rparr>))"

text \<open>\<open>os.chdir(p)\<close>.\<close>

definition chdir :: "path \<Rightarrow> unit io" where
  "chdir p w =
     (case fs_lookup (files w) p of
        None \<Rightarrow> (Raise (access_error (files w) p), w)
      | Some (File _) \<Rightarrow> (Raise NotADirectoryError, w)
      | Some Dir \<Rightarrow> (Return (), w\<lparr>cwd := p\<rparr>))"

text \<open>\<open>print(line)\<close>.\<close>

definition print_line :: "string \<Rightarrow> unit io" where
  "print_line line w = (Return (), w\<lparr>stdout := stdout w @ [line]\<rparr>)"

text \<open>\<open>shutil.copy2(src, dst)\<close>: into \<open>dst\<close> under the name of \<open>src\<close> when \<open>dst\<close> is a
  directory; refused when source and destination are the same file; then the source
  is opened for reading and the destination for writing.  File metadata is not
  modelled.\<close>

definition copy2 :: "path \<Rightarrow> path \<Rightarrow> unit io" where
  "copy2 src dst w =
     (let dst' = (if isdir (files w) dst \<and> src \<noteq> [] then dst @ [last src] else dst)
      in if dst' = src \<and> path_exists (files w) src then (Raise SameFileError, w)
         else io_bind (read_file src) (\<lambda>t. write_file dst' t) w)"

text \<open>A file system is well formed when every entry lies in a directory.\<close>

definition wf_fs :: "filesystem \<Rightarrow> bool" where
  "wf_fs fs = list_all (\<lambda>(q, _). q \<noteq> [] \<longrightarrow> isdir fs (butlast q)) fs"

section \<open>Parameters of the environment\<close>

text \<open>
  What the code takes from outside the repository's file: the names
  \<open>tempfile\<close> draws (the \<open>n\<close>-th name drawn in a run is \<open>names n\<close>), the directory
  \<open>tempfile.gettempdir()\<close> returns, \<open>multiprocessing.cpu_count()\<close>, and the two
  collaborators the specification leaves out of scope.

  Modelled from the spec: the class \<open>FileReader\<close> of \<open>pySWATPlus.FileReader\<close> (the
  TabularFileAdapter) is not among the sources.  \<open>file_reader id_col file_mods text\<close>
  is the text \<open>overwrite_file\<close> writes back after the file with text \<open>text\<close> was loaded
  with index column \<open>id_col\<close> and the triples \<open>(id, col_name, value)\<close> of \<open>file_mods\<close>
  were assigned, or the exception one of these steps raises.

  The executable is a black box: \<open>swat exe fs\<close> is \<open>None\<close> when the process started
  from the file \<open>exe\<close> in the file system \<open>fs\<close> never ends, and otherwise the lines
  it writes to its standard output with the file system it leaves.
\<close>

type_synonym file_mod = "string option \<times> string \<times> pyval"

type_synonym params = "(string \<times> string \<times> file_mod list) list"

type_synonym tpl_params = "(string \<times> (string \<times> pyval) list) list"

record env =
  names :: "nat \<Rightarrow> string"
  tempdir :: path
  cpu_count :: int
  file_reader :: "string \<Rightarrow> file_mod list \<Rightarrow> string \<Rightarrow> pyerr + string"
  swat :: "path \<Rightarrow> filesystem \<Rightarrow> (string list \<times> filesystem) option"

section \<open>tempfile.mkdtemp\<close>

definition TMP_MAX :: nat where
  "TMP_MAX = 10000"

text \<open>The loop of \<open>tempfile.mkdtemp\<close>: at most \<open>TMP_MAX\<close> names are tried; a name that
  exists is passed over, any other error of \<open>mkdir\<close> is raised; when no name was
  free, \<open>FileExistsError\<close>.\<close>

fun mkdtemp_loop :: "(nat \<Rightarrow> string) \<Rightarrow> path \<Rightarrow> nat \<Rightarrow> path io" where
  "mkdtemp_loop nm dir 0 w = (Raise FileExistsError, w)"
| "mkdtemp_loop nm dir (Suc n) w =
     (let file = dir @ [''tmp'' @ nm (rng w)];
          w1 = w\<lparr>rng := Suc (rng w)\<rparr>
      in case mkdir file w1 of
           (Return _, w2) \<Rightarrow> (Return file, w2)
         | (Raise e, w2) \<Rightarrow>
             if e = FileExistsError then mkdtemp_loop nm dir n w2 else (Raise e, w2)
         | (Hang, w2) \<Rightarrow> (Hang, w2))"

definition mkdtemp :: "env \<Rightarrow> path option \<Rightarrow> path io" where
  "mkdtemp env dir =
     mkdtemp_loop (names env) (case dir of None \<Rightarrow> tempdir env | Some d \<Rightarrow> d) TMP_MAX"

section \<open>A fragment of re.sub\<close>

text \<open>
  The regular expressions made of ordinary characters and the dot, which matches any
  character but a newline.  A pattern with any other special character, and a
  replacement with a backslash, are outside the fragment.
\<close>

datatype re_atom = Lit char | AnyChar

definition re_special :: "char list" where
  "re_special = ''.^$*+?{}[]|()'' @ [CHR 0x5C]"

definition re_compile :: "string \<Rightarrow> re_atom list option" where
  "re_compile pattern =
     (if list_ex (\<lambda>c. c \<in> set re_special \<and> c \<noteq> CHR ''.'') pattern then None
      else Some (map (\<lambda>c. if c = CHR ''.'' then AnyChar else Lit c) pattern))"

fun atom_matches :: "re_atom \<Rightarrow> char \<Rightarrow> bool" where
  "atom_matches (Lit a) c = (a = c)"
| "atom_matches AnyChar c = (c \<noteq> NL)"

text \<open>The pattern matches at the start of the text.\<close>

fun match_here :: "re_atom list \<Rightarrow> string \<Rightarrow> bool" where
  "match_here [] s = True"
| "match_here (a # as) [] = False"
| "match_here (a # as) (c # cs) = (atom_matches a c \<and> match_here as cs)"

text \<open>The scan of \<open>re.sub\<close>: from left to right, every match that does not overlap an
  earlier one is replaced (an empty pattern matches before every character and at
  the end).\<close>

fun sub_scan :: "re_atom list \<Rightarrow> string \<Rightarrow> string \<Rightarrow> string" where
  "sub_scan pat repl [] = (if pat = [] then repl else [])"
| "sub_scan pat repl (c # cs) =
     (if match_here pat (c # cs)
      then (if pat = [] then repl @ c # sub_scan pat repl cs
            else repl @ sub_scan pat repl (drop (length pat - 1) cs))
      else c # sub_scan pat repl cs)"

definition re_sub :: "string \<Rightarrow> string \<Rightarrow> string \<Rightarrow> string option" where
  "re_sub pattern repl s =
     (case re_compile pattern of
        None \<Rightarrow> None
      | Some pat \<Rightarrow> if CHR 0x5C \<in> set repl then None else Some (sub_scan pat repl s))"

section \<open>TxtinoutReader\<close>

record reader =
  root_folder :: path
  swat_exe_path :: path

text \<open>The loop of \<open>__init__\<close> that counts the files ending in \<open>.exe\<close>.\<close>

fun count_exe :: "string list \<Rightarrow> nat \<times> string option \<Rightarrow> pyerr + nat \<times> string option" where
  "count_exe [] (count, swat_exe) = Inr (count, swat_exe)"
| "count_exe (file # rest) (count, swat_exe) =
     (if endswith file ''.exe''
      then (if count = 0 then count_exe rest (count + 1, Some file)
            else Inl (TypeError ''More than one .exe file found in the parent folder''))
      else count_exe rest (count, swat_exe))"

text \<open>\<open>TxtinoutReader(path)\<close>.\<close>

definition TxtinoutReader :: "path \<Rightarrow> reader io" where
  "TxtinoutReader path w =
     (if \<not> isdir (files w) path then (Raise FileNotFoundError, w)
      else io_bind (listdir path) (\<lambda>listing.
             case count_exe listing (0, None) of
               Inl e \<Rightarrow> io_raise e
             | Inr (count, swat_exe) \<Rightarrow>
                 if count = 0 then io_raise (TypeError ''.exe not found in parent folder'')
                 else (case swat_exe of
                         None \<Rightarrow> io_raise (TypeError ''unsupported operand'')
                       | Some exe \<Rightarrow>
                           io_return \<lparr>root_folder = path, swat_exe_path = path @ [exe]\<rparr>)) w)"

text \<open>The loop of \<open>change_params\<close> over the items of \<open>params\<close>, in their order.\<close>

fun substitute :: "(string \<times> pyval) list \<Rightarrow> string \<Rightarrow> string option" where
  "substitute [] new_lines = Some new_lines"
| "substitute ((k, v) # rest) new_lines =
     (case re_sub (''#'' @ k @ ''#'') (str_of v) new_lines of
        None \<Rightarrow> None
      | Some new_lines' \<Rightarrow> substitute rest new_lines')"

text \<open>\<open>change_params(tpl_filename, params)\<close>; \<open>tpl_filename\<close> is the name of a file in the
  root folder.\<close>

definition change_params :: "reader \<Rightarrow> string \<Rightarrow> (string \<times> pyval) list \<Rightarrow> unit io" where
  "change_params self tpl_filename params =
     (let new_filename = rsplit1_head CHR ''.'' tpl_filename;
          tpl_path = root_folder self @ [tpl_filename];
          new_path = root_folder self @ [new_filename]
      in io_bind (read_file tpl_path) (\<lambda>text.
           let lines = readlines text in
           case substitute params (concat lines) of
             None \<Rightarrow> io_raise Unmodelled
           | Some new_lines \<Rightarrow> write_file new_path new_lines))"

section \<open>WorkspaceManager: copy_swat\<close>

definition excluded :: "string \<Rightarrow> bool" where
  "excluded file =
     list_ex (endswith file)
       [''_aa.txt'', ''_aa.csv'', ''_yr.txt'', ''_yr.csv'', ''_day.txt'', ''_day.csv'',
        ''_mon.csv'', ''_mon.txt'']"

text \<open>The loop that deletes the regular files of \<open>dir\<close>; an exception is printed and
  the loop goes on.\<close>

fun remove_files :: "path \<Rightarrow> string list \<Rightarrow> unit io" where
  "remove_files dir [] w = (Return (), w)"
| "remove_files dir (file # rest) w =
     (let file_path = dir @ [file]
      in if isfile (files w) file_path
         then (case remove file_path w of
                 (Raise e, w1) \<Rightarrow> remove_files dir rest (snd (print_line ''error'' w1))
               | (Return _, w1) \<Rightarrow> remove_files dir rest w1
               | (Hang, w1) \<Rightarrow> (Hang, w1))
         else remove_files dir rest w)"

text \<open>The loop that copies the files of the source folder.\<close>

fun copy_files :: "path \<Rightarrow> path \<Rightarrow> string list \<Rightarrow> unit io" where
  "copy_files source_folder temp_folder_path [] = io_return ()"
| "copy_files source_folder temp_folder_path (file # rest) =
     (if \<not> excluded file
      then io_bind (copy2 (source_folder @ [file]) (temp_folder_path @ [file]))
             (\<lambda>_. copy_files source_folder temp_folder_path rest)
      else copy_files source_folder temp_folder_path rest)"

text \<open>\<open>os.makedirs(dir, exist_ok=True)\<close> and the tests on \<open>dir\<close>, which raise
  \<open>TypeError\<close> on \<open>None\<close>.\<close>

definition makedirs_opt :: "path option \<Rightarrow> unit io" where
  "makedirs_opt dir =
     (case dir of
        None \<Rightarrow> io_raise (TypeError ''expected str, bytes or os.PathLike object, not NoneType'')
      | Some d \<Rightarrow> makedirs d)"

text \<open>\<open>copy_swat(dir, overwrite)\<close>, with the four branches in the order of the source.\<close>

definition copy_swat :: "env \<Rightarrow> reader \<Rightarrow> path option \<Rightarrow> bool \<Rightarrow> path io" where
  "copy_swat env self dir overwrite =
     io_bind
       (if dir = None \<or> (\<not> overwrite \<and> dir \<noteq> None)
        then io_except (mkdtemp env dir) FileNotFoundError
               (io_bind (makedirs_opt dir) (\<lambda>_. mkdtemp env dir))
        else (case dir of
                None \<Rightarrow> io_raise (TypeError ''expected str, bytes or os.PathLike object, not NoneType'')
              | Some d \<Rightarrow>
                 if overwrite
                 then (\<lambda>w. if isdir (files w) d
                           then io_bind (listdir d) (\<lambda>listing.
                                  io_bind (remove_files d listing) (\<lambda>_. io_return d)) w
                           else io_bind (makedirs d) (\<lambda>_. io_return d) w)
                 else (\<lambda>w. if \<not> isdir (files w) d
                           then (if isfile (files w) d
                                 then (Raise (TypeError ''dir must be a folder''), w)
                                 else io_bind (makedirs d) (\<lambda>_. io_return d) w)
                           else (Raise (TypeError ''option not recognized''), w))))
       (\<lambda>temp_folder_path.
          io_bind (listdir (root_folder self)) (\<lambda>listing.
            io_bind (copy_files (root_folder self) temp_folder_path listing)
              (\<lambda>_. io_return temp_folder_path)))"

section \<open>SimulationRunner\<close>

text \<open>\<open>_run_swat(show_output)\<close>: the working directory becomes the root folder, the
  executable is started, and the loop reads its output until the process has ended,
  printing each line that is not empty once stripped when \<open>show_output\<close> is set.  A
  process that never ends keeps the loop running.\<close>

definition run_swat_exe :: "env \<Rightarrow> reader \<Rightarrow> bool \<Rightarrow> unit io" where
  "run_swat_exe env self show_output =
     io_bind (chdir (root_folder self)) (\<lambda>_ w.
       case fs_lookup (files w) (swat_exe_path self) of
         None \<Rightarrow> (Raise (access_error (files w) (swat_exe_path self)), w)
       | Some Dir \<Rightarrow> (Raise PermissionError, w)
       | Some (File _) \<Rightarrow>
          (case swat env (swat_exe_path self) (files w) of
             None \<Rightarrow> (Hang, w)
           | Some (raw_output, fs') \<Rightarrow>
               (Return (),
                w\<lparr>files := fs',
                  stdout := stdout w @
                    (if show_output then filter (\<lambda>output. output \<noteq> []) (map strip raw_output)
                     else [])\<rparr>)))"

text \<open>The loop of \<open>run_swat\<close> over the items of \<open>params\<close>: the file is registered with the
  reader, modified and written back.\<close>

fun modify_files :: "env \<Rightarrow> reader \<Rightarrow> params \<Rightarrow> unit io" where
  "modify_files env aux_txtinout [] = io_return ()"
| "modify_files env aux_txtinout ((filename, id_col, file_mods) # rest) =
     (let file_path = root_folder aux_txtinout @ [filename]
      in io_bind (read_file file_path) (\<lambda>text.
           case file_reader env id_col file_mods text of
             Inl e \<Rightarrow> io_raise e
           | Inr text' \<Rightarrow>
               io_bind (write_file file_path text')
                 (\<lambda>_. modify_files env aux_txtinout rest)))"

text \<open>The loop of \<open>run_swat\<close> over the items of \<open>tpl_params\<close>.\<close>

fun change_all_params :: "reader \<Rightarrow> tpl_params \<Rightarrow> unit io" where
  "change_all_params self [] = io_return ()"
| "change_all_params self ((tpl_file, tpl_par) # rest) =
     io_bind (change_params self tpl_file tpl_par) (\<lambda>_. change_all_params self rest)"

text \<open>\<open>run_swat(params, tpl_params, show_output)\<close>.\<close>

definition run_swat :: "env \<Rightarrow> reader \<Rightarrow> params \<Rightarrow> tpl_params \<Rightarrow> bool \<Rightarrow> path io" where
  "run_swat env self params tpl_params show_output =
     io_bind (TxtinoutReader (root_folder self)) (\<lambda>aux_txtinout.
       io_bind (modify_files env aux_txtinout params) (\<lambda>_.
         io_bind (if tpl_params \<noteq> [] then change_all_params self tpl_params else io_return ())
           (\<lambda>_. io_bind (run_swat_exe env aux_txtinout show_output)
                  (\<lambda>_. io_return (root_folder self)))))"

section \<open>ParallelOrchestrator\<close>

text \<open>\<open>copy_and_run(dir, overwrite, params, tpl_params, show_output)\<close>.\<close>

definition copy_and_run ::
    "env \<Rightarrow> reader \<Rightarrow> path option \<Rightarrow> bool \<Rightarrow> params \<Rightarrow> tpl_params \<Rightarrow> bool \<Rightarrow> path io" where
  "copy_and_run env self dir overwrite params tpl_params show_output =
     io_bind (copy_swat env self dir overwrite) (\<lambda>tmp_path.
       io_bind (TxtinoutReader tmp_path) (\<lambda>reader.
         run_swat env reader params tpl_params show_output))"

text \<open>\<open>copy_and_run_star(args)\<close> for the lists of four elements \<open>run_parallel_swat\<close>
  builds: \<open>copy_and_run(*args)\<close> binds them to \<open>dir\<close>, \<open>overwrite\<close>, \<open>params\<close> and
  \<open>tpl_params\<close>, and \<open>show_output\<close> keeps its default \<open>True\<close>.  The boolean that lands
  in \<open>tpl_params\<close> is tested by \<open>if tpl_params\<close>: \<open>False\<close> means no template edit,
  \<open>True\<close> has no \<open>items\<close>.\<close>

definition copy_and_run_star ::
    "env \<Rightarrow> reader \<Rightarrow> path option \<times> bool \<times> params \<times> bool \<Rightarrow> path io" where
  "copy_and_run_star env self args =
     (case args of (dir, overwrite, params, tpl_flag) \<Rightarrow>
        if tpl_flag
        then io_bind (copy_swat env self dir overwrite) (\<lambda>tmp_path.
               io_bind (TxtinoutReader tmp_path) (\<lambda>reader.
                 io_bind (TxtinoutReader (root_folder reader)) (\<lambda>aux_txtinout.
                   io_bind (modify_files env aux_txtinout params)
                     (\<lambda>_. io_raise AttributeError))))
        else copy_and_run env self dir overwrite params [] True)"

text \<open>The loop of \<open>run_parallel_swat\<close> when no client is given.\<close>

fun run_all :: "env \<Rightarrow> reader \<Rightarrow> path option \<Rightarrow> params list \<Rightarrow> path list \<Rightarrow> path list io" where
  "run_all env self dir [] results_ret = io_return results_ret"
| "run_all env self dir (p # ps) results_ret =
     io_bind (copy_and_run env self dir False p [] False)
       (\<lambda>r. run_all env self dir ps (results_ret @ [r]))"

text \<open>
  Modelled from the spec: the distributed executor (a \<open>dask.distributed.Client\<close>) is
  not part of the repository.  Its contract is \<open>map(fn, taskList) -> FutureList\<close> and
  \<open>gather(FutureList) -> OrderedResultList\<close>, results in the order of submission
  whatever the order of completion.  A client is modelled by the order in which it
  completes the tasks, each task running as a whole: \<open>picks\<close> chooses, at every step,
  one of the tasks not yet run.  Every list of picks gives a permutation of the
  tasks, and every permutation is given by some list.  A task that raises leaves
  its exception in its future; \<open>gather\<close> raises the first exception in the order
  of submission.
\<close>

datatype client = Client (picks: "nat list")

function completion_order :: "nat list \<Rightarrow> nat list \<Rightarrow> nat list" where
  "completion_order ps [] = []"
| "completion_order ps (r # rs) =
     (let k = (case ps of [] \<Rightarrow> 0 | p # _ \<Rightarrow> p mod length (r # rs))
      in ((r # rs) ! k) # completion_order (tl ps) (take k (r # rs) @ drop (Suc k) (r # rs)))"
  by pat_completeness auto
termination
proof (relation "measure (\<lambda>(ps, rs). length rs)")
  fix ps :: "nat list" and r :: nat and rs :: "nat list" and k
  assume k: "k = (case ps of [] \<Rightarrow> 0 | p # x \<Rightarrow> p mod length (r # rs))"
  have "k \<le> length rs"
    unfolding k by (cases ps) (simp_all add: less_Suc_eq_le[symmetric])
  then show "((tl ps, take k (r # rs) @ drop (Suc k) (r # rs)), ps, r # rs)
               \<in> measure (\<lambda>(ps, rs). length rs)"
    by (simp add: min_def)
qed simp

fun client_run ::
    "('i \<Rightarrow> 'a io) \<Rightarrow> 'i list \<Rightarrow> nat list \<Rightarrow> (pyerr + 'a) option list
       \<Rightarrow> (pyerr + 'a) option list io" where
  "client_run fn items [] futures w = (Return futures, w)"
| "client_run fn items (i # order) futures w =
     (case fn (items ! i) w of
        (Return a, w1) \<Rightarrow> client_run fn items order (futures[i := Some (Inr a)]) w1
      | (Raise e, w1) \<Rightarrow> client_run fn items order (futures[i := Some (Inl e)]) w1
      | (Hang, w1) \<Rightarrow> (Hang, w1))"

definition client_map ::
    "client \<Rightarrow> ('i \<Rightarrow> 'a io) \<Rightarrow> 'i list \<Rightarrow> (pyerr + 'a) option list io" where
  "client_map c fn items =
     client_run fn items (completion_order (picks c) [0 ..< length items])
       (replicate (length items) None)"

fun client_gather :: "(pyerr + 'a) option list \<Rightarrow> 'a list io" where
  "client_gather [] = io_return []"
| "client_gather (None # futures) = (\<lambda>w. (Hang, w))"
| "client_gather (Some (Inl e) # futures) = io_raise e"
| "client_gather (Some (Inr a) # futures) =
     io_bind (client_gather futures) (\<lambda>results. io_return (a # results))"

text \<open>\<open>run_parallel_swat(params, n_workers, dir, client)\<close>.\<close>

definition run_parallel_swat ::
    "env \<Rightarrow> reader \<Rightarrow> params list \<Rightarrow> int \<Rightarrow> path option \<Rightarrow> client option \<Rightarrow> path list io" where
  "run_parallel_swat env self params n_workers dir client =
     (let max_treads = cpu_count env;
          threads = max (min n_workers max_treads) 1
      in case client of
           None \<Rightarrow> run_all env self dir params []
         | Some c \<Rightarrow>
             (let items = map (\<lambda>p. (dir, False, p, False)) params
              in io_bind (client_map c (copy_and_run_star env self) items) client_gather))"

text \<open>
  The reference for claim C1, written from the specification and not from the source:
  \<open>runOne\<close> is executed for each item, one run after the other in the order of the
  list, and the results are collected in that order.  The call returns when every
  run has returned; the first run that raises or does not end decides otherwise.
\<close>

fun run_sequentially :: "('i \<Rightarrow> 'a io) \<Rightarrow> 'i list \<Rightarrow> 'a list io" where
  "run_sequentially task [] = io_return []"
| "run_sequentially task (i # items) =
     io_bind (task i) (\<lambda>r.
       io_bind (run_sequentially task items) (\<lambda>rs. io_return (r # rs)))"

section \<open>A workspace and an environment for the examples\<close>

text \<open>The file system of the examples: the workspace \<open>/ws\<close> with its executable, two
  input files, a template and an output file of an earlier run; and a regular file
  \<open>/f\<close>.  The executable of the examples leaves the files as they are and writes
  one line; the tabular reader writes back the text it read.\<close>

definition example_fs :: filesystem where
  "example_fs =
     [([''ws''], Dir),
      ([''ws'', ''swat.exe''], File ''binary''),
      ([''ws'', ''print.prt''], File ''print''),
      ([''ws'', ''out_day.csv''], File ''output''),
      ([''ws'', ''soils.sol.tpl''], File ''x #abc# y #a.c# z''),
      ([''f''], File ''plain'')]"

definition example_world :: world where
  "example_world = \<lparr>files = example_fs, rng = 0, cwd = [], stdout = []\<rparr>"

definition example_reader :: reader where
  "example_reader = \<lparr>root_folder = [''ws''], swat_exe_path = [''ws'', ''swat.exe'']\<rparr>"

definition example_env :: env where
  "example_env =
     \<lparr>names = (\<lambda>n. replicate (Suc n) CHR ''a''),
      tempdir = [''tmp''],
      cpu_count = 4,
      file_reader = (\<lambda>id_col file_mods text. Inr text),
      swat = (\<lambda>exe fs. Some ([''done''], fs))\<rparr>"

lemma concat_readlines: "concat (readlines s) = s"
  by (induction s) (auto split: list.splits)

lemma readlines_eq_Nil: "readlines s = [] \<longleftrightarrow> s = []"
  by (cases s) (auto split: list.splits)

lemma readlines_complete: "complete_line l \<Longrightarrow> readlines (l @ s) = l # readlines s"
proof (induction l)
  case Nil
  then show ?case by (simp add: complete_line_def)
next
  case (Cons c cs)
  show ?case
  proof (cases "cs = []")
    case True
    with Cons.prems show ?thesis by (simp add: complete_line_def)
  next
    case False
    with Cons.prems have "c \<noteq> NL" and "complete_line cs"
      by (auto simp: complete_line_def)
    with Cons.IH show ?thesis by simp
  qed
qed

lemma readlines_single: "l \<noteq> [] \<Longrightarrow> NL \<notin> set (butlast l) \<Longrightarrow> readlines l = [l]"
proof (induction l)
  case Nil
  then show ?case by simp
next
  case (Cons c cs)
  show ?case
  proof (cases "cs = []")
    case True
    then show ?thesis by simp
  next
    case False
    with Cons show ?thesis by (auto split: list.splits)
  qed
qed

lemma readlines_concat: "lines_ok ls \<Longrightarrow> readlines (concat ls) = ls"
proof (induction ls rule: lines_ok.induct)
  case 1
  then show ?case by simp
next
  case (2 l)
  then show ?case by (simp add: readlines_single)
next
  case (3 l l' ls)
  then show ?case by (simp add: readlines_complete)
qed

lemma lines_ok_readlines: "lines_ok (readlines s)"
proof (induction s)
  case Nil
  then show ?case by simp
next
  case (Cons c cs)
  show ?case
  proof (cases "c = NL")
    case True
    with Cons show ?thesis
      by (cases "readlines cs") (auto simp: complete_line_def)
  next
    case False
    show ?thesis
    proof (cases "readlines cs")
      case Nil
      with False show ?thesis by simp
    next
      case (Cons l ls)
      with False Cons.IH show ?thesis
        by (cases ls) (auto simp: complete_line_def)
    qed
  qed
qed

lemma lines_ok_nth:
  "lines_ok ls \<Longrightarrow> i < length ls \<Longrightarrow> ls ! i \<noteq> [] \<and> NL \<notin> set (butlast (ls ! i))"
proof (induction ls arbitrary: i rule: lines_ok.induct)
  case 1
  then show ?case by simp
next
  case (2 l)
  then show ?case by simp
next
  case (3 l l' ls)
  then show ?case by (cases i) (auto simp: complete_line_def)
qed

lemma lines_ok_nth_complete:
  "lines_ok ls \<Longrightarrow> Suc i < length ls \<Longrightarrow> complete_line (ls ! i)"
proof (induction ls arbitrary: i rule: lines_ok.induct)
  case 1
  then show ?case by simp
next
  case (2 l)
  then show ?case by simp
next
  case (3 l l' ls)
  then show ?case by (cases i) auto
qed

lemma lines_okI:
  assumes "\<And>i. i < length ls \<Longrightarrow> ls ! i \<noteq> [] \<and> NL \<notin> set (butlast (ls ! i))"
    and "\<And>i. Suc i < length ls \<Longrightarrow> last (ls ! i) = NL"
  shows "lines_ok ls"
  using assms
proof (induction ls rule: lines_ok.induct)
  case 1
  then show ?case by simp
next
  case (2 l)
  from "2.prems"(1)[of 0] show ?case by simp
next
  case (3 l l' ls)
  have "complete_line l"
    using "3.prems"(1)[of 0] "3.prems"(2)[of 0] by (simp add: complete_line_def)
  moreover have "lines_ok (l' # ls)"
  proof (rule "3.IH")
    fix i assume "i < length (l' # ls)"
    then show "(l' # ls) ! i \<noteq> [] \<and> NL \<notin> set (butlast ((l' # ls) ! i))"
      using "3.prems"(1)[of "Suc i"] by simp
  next
    fix i assume "Suc i < length (l' # ls)"
    then show "last ((l' # ls) ! i) = NL"
      using "3.prems"(2)[of "Suc i"] by simp
  qed
  ultimately show ?case by simp
qed

lemma lines_ok_update:
  assumes "lines_ok ls" and "i < length ls" and "complete_line new"
  shows "lines_ok (ls[i := new])"
proof (rule lines_okI)
  fix j assume "j < length (ls[i := new])"
  then show "ls[i := new] ! j \<noteq> [] \<and> NL \<notin> set (butlast (ls[i := new] ! j))"
    using assms lines_ok_nth[of ls j] by (cases "j = i") (auto simp: complete_line_def)
next
  fix j assume "Suc j < length (ls[i := new])"
  then show "last (ls[i := new] ! j) = NL"
    using assms lines_ok_nth_complete[of ls j]
    by (cases "j = i") (auto simp: complete_line_def)
qed

lemma readlines_prefix_complete:
  "list_all complete_line ps \<Longrightarrow> readlines (concat ps @ x) = ps @ readlines x"
  by (induction ps) (simp_all add: readlines_complete)

lemma lines_ok_take_complete:
  assumes "lines_ok ls" and "n < length ls"
  shows "list_all complete_line (take n ls)"
  unfolding list_all_length
proof (intro allI impI)
  fix i assume "i < length (take n ls)"
  then have "i < n" and "Suc i < length ls" using assms(2) by auto
  then show "complete_line (take n ls ! i)"
    using lines_ok_nth_complete[OF assms(1), of i] by simp
qed

lemma scan_print_prt_eq:
  "scan_print_prt arg built ls (acc, found) =
     (acc @ concat (map (replace_matching arg built) ls),
      found \<or> list_ex (\<lambda>l. startswith l (arg @ '' '')) ls)"
  by (induction ls arbitrary: acc found) (simp_all add: replace_matching_def)

lemma enable_object_in_print_prt_eq:
  "enable_object_in_print_prt seps obj d m y a s =
     (let arg = object_of seps obj; built = build_line_to_add arg d m y a in
      concat (map (replace_matching arg built) (readlines s)) @
      (if list_ex (\<lambda>l. startswith l (arg @ '' '')) (readlines s) then [] else built))"
  by (simp add: enable_object_in_print_prt_def scan_print_prt_eq Let_def)

lemma rstrip_append_nonspace:
  assumes "\<not> isspace c" and "list_all isspace ws"
  shows "rstrip (xs @ c # ws) = xs @ [c]"
proof -
  have "dropWhile isspace (rev ws @ c # rev xs) = dropWhile isspace (c # rev xs)"
    by (rule dropWhile_append2) (use assms(2) in \<open>auto simp: list_all_iff\<close>)
  with assms(1) show ?thesis by (simp add: rstrip_def)
qed

lemma build_line_to_add_eq:
  "build_line_to_add obj d m y a =
     ljust 29 obj @ ljust 14 (if d then ''y'' else ''n'') @ ljust 14 (if m then ''y'' else ''n'')
       @ ljust 14 (if y then ''y'' else ''n'') @ (if a then ''y'' else ''n'') @ [NL]"
proof -
  define c where "c = (if a then CHR ''y'' else CHR ''n'')"
  define pre where "pre = ljust 29 obj @ ljust 14 (if d then ''y'' else ''n'')
       @ ljust 14 (if m then ''y'' else ''n'') @ ljust 14 (if y then ''y'' else ''n'')"
  have sp: "list_all isspace (replicate 13 CHR '' '')"
    by (simp add: list_all_iff isspace_def)
  have c: "\<not> isspace c"
    by (simp add: c_def isspace_def)
  have "foldl (\<lambda>arg_to_add v. arg_to_add @ ljust 14 (if v then ''y'' else ''n''))
          (ljust 29 obj) [d, m, y, a] = pre @ c # replicate 13 CHR '' ''"
    by (simp add: pre_def c_def ljust_def)
  then have "build_line_to_add obj d m y a = (pre @ [c]) @ [NL]"
    unfolding build_line_to_add_def using rstrip_append_nonspace[OF c sp, of pre] by simp
  then show ?thesis by (simp add: pre_def c_def)
qed

lemma complete_line_build:
  assumes "NL \<notin> set obj"
  shows "complete_line (build_line_to_add obj d m y a)"
  using assms by (auto simp: build_line_to_add_eq complete_line_def ljust_def butlast_append)

lemma startswith_no_newline:
  assumes "startswith l (arg @ '' '')" and "NL \<notin> set (butlast l)"
  shows "NL \<notin> set arg"
proof -
  from assms(1) have t: "take (Suc (length arg)) l = arg @ '' ''"
    by (simp add: startswith_def)
  then have len: "Suc (length arg) \<le> length l"
    by (metis length_append_singleton length_take min.cobounded1 min_def nat_le_linear take_all)
  from t have "arg = take (length arg) (take (Suc (length arg)) l)" by simp
  also have "\<dots> = take (length arg) l" by simp
  also have "\<dots> = take (length arg) (butlast l)"
    using len by (simp add: take_butlast)
  finally have "set arg \<subseteq> set (butlast l)"
    by (metis set_take_subset)
  with assms(2) show ?thesis by auto
qed

lemma map_replace_unique:
  assumes "i < length ls" and "startswith (ls ! i) (arg @ '' '')"
    and "\<forall>j < length ls. j \<noteq> i \<longrightarrow> \<not> startswith (ls ! j) (arg @ '' '')"
  shows "map (replace_matching arg built) ls = ls[i := built]"
  using assms by (intro nth_equalityI) (auto simp: replace_matching_def nth_list_update)

text \<open>Claim C4.  When exactly one line of \<open>print.prt\<close> starts with the object name followed
  by a space, \<open>enable_object_in_print_prt\<close> writes a file whose lines are those of the
  old file with that one line replaced, at the same index, by the line
  \<open>_build_line_to_add\<close> builds: the number of lines and every other line are
  unchanged.\<close>

theorem enable_object_replaces_in_place:
  assumes "i < length (readlines s)"
    and "startswith (readlines s ! i) (object_of seps obj @ '' '')"
    and "\<forall>j < length (readlines s). j \<noteq> i \<longrightarrow>
           \<not> startswith (readlines s ! j) (object_of seps obj @ '' '')"
  shows "readlines (enable_object_in_print_prt seps obj d m y a s) =
           (readlines s)[i := build_line_to_add (object_of seps obj) d m y a]"
proof -
  let ?ls = "readlines s"
  let ?arg = "object_of seps obj"
  let ?built = "build_line_to_add ?arg d m y a"
  have ok: "lines_ok ?ls" by (rule lines_ok_readlines)
  have found: "list_ex (\<lambda>l. startswith l (?arg @ '' '')) ?ls"
    using assms(1,2) by (auto simp: list_ex_iff)
  have "NL \<notin> set ?arg"
    using startswith_no_newline[OF assms(2)] lines_ok_nth[OF ok assms(1)] by simp
  then have "complete_line ?built" by (rule complete_line_build)
  then have ok': "lines_ok (?ls[i := ?built])"
    using ok assms(1) by (intro lines_ok_update)
  have "enable_object_in_print_prt seps obj d m y a s = concat (?ls[i := ?built])"
    using found map_replace_unique[OF assms, of ?built]
    by (simp add: enable_object_in_print_prt_eq Let_def)
  then show ?thesis using readlines_concat[OF ok'] by simp
qed

lemma enable_object_absent_bytes:
  assumes "\<not> list_ex (\<lambda>l. startswith l (object_of seps obj @ '' '')) (readlines s)"
  shows "enable_object_in_print_prt seps obj d m y a s =
           s @ build_line_to_add (object_of seps obj) d m y a"
proof -
  have "map (replace_matching (object_of seps obj) b) (readlines s) = readlines s" for b
    using assms by (intro map_idI) (auto simp: replace_matching_def list_ex_iff)
  then show ?thesis
    using assms by (simp add: enable_object_in_print_prt_eq Let_def concat_readlines)
qed

lemma last_concat_last:
  assumes "ls \<noteq> []" and "last ls \<noteq> []"
  shows "last (concat ls) = last (last ls)"
  using assms
proof (induction ls)
  case Nil
  then show ?case by simp
next
  case (Cons a ls)
  show ?case
  proof (cases "ls = []")
    case True
    then show ?thesis by simp
  next
    case False
    with Cons.prems have "last ls \<in> set ls" and "last ls \<noteq> []" by auto
    then have "concat ls \<noteq> []" by auto
    with Cons False show ?thesis by simp
  qed
qed

lemma lines_ok_last_complete:
  assumes "lines_ok ls" and "ls \<noteq> []" and "last (concat ls) = NL"
  shows "list_all complete_line ls"
proof -
  have ne: "last ls \<noteq> []"
    using lines_ok_nth[OF assms(1), of "length ls - 1"] assms(2) by (simp add: last_conv_nth)
  then have "last (concat ls) = last (last ls)"
    using assms(2) by (rule last_concat_last[rotated])
  with assms(3) have l: "last (last ls) = NL" by simp
  show ?thesis
    unfolding list_all_length
  proof (intro allI impI)
    fix i assume i: "i < length ls"
    show "complete_line (ls ! i)"
    proof (cases "Suc i < length ls")
      case True
      then show ?thesis by (rule lines_ok_nth_complete[OF assms(1)])
    next
      case False
      with i have "i = length ls - 1" by arith
      then have "ls ! i = last ls" using assms(2) by (simp add: last_conv_nth)
      with l ne lines_ok_nth[OF assms(1) i] show ?thesis by (simp add: complete_line_def)
    qed
  qed
qed

lemma enable_object_absent_lines:
  assumes "\<not> list_ex (\<lambda>l. startswith l (object_of seps obj @ '' '')) (readlines s)"
    and "s = [] \<or> last s = NL" and "NL \<notin> set (object_of seps obj)"
  shows "readlines (enable_object_in_print_prt seps obj d m y a s) =
           readlines s @ [build_line_to_add (object_of seps obj) d m y a]"
proof -
  let ?built = "build_line_to_add (object_of seps obj) d m y a"
  have b: "complete_line ?built" using assms(3) by (rule complete_line_build)
  then have rb: "readlines ?built = [?built]"
    using readlines_complete[of ?built "[]"] by simp
  have "list_all complete_line (readlines s)"
  proof (cases "s = []")
    case True
    then show ?thesis by simp
  next
    case False
    with assms(2) have "last (concat (readlines s)) = NL" by (simp add: concat_readlines)
    moreover from False have "readlines s \<noteq> []" by (simp add: readlines_eq_Nil)
    ultimately show ?thesis using lines_ok_last_complete[OF lines_ok_readlines] by blast
  qed
  then have "readlines (concat (readlines s) @ ?built) = readlines s @ readlines ?built"
    by (rule readlines_prefix_complete)
  then show ?thesis
    using enable_object_absent_bytes[OF assms(1)] rb by (simp add: concat_readlines)
qed

lemma basin_sub_never_matches:
  assumes "startswith l ''basin_sub''"
  shows "\<not> startswith l (''basin'' @ '' '')"
proof
  assume "startswith l (''basin'' @ '' '')"
  then have b: "take (length ''basin '') l = ''basin ''" by (simp add: startswith_def)
  from assms have "take (length ''basin_sub'') l = ''basin_sub''" by (simp add: startswith_def)
  then have "take (length ''basin '') (take (length ''basin_sub'') l) = take (length ''basin '') ''basin_sub''"
    by (rule arg_cong)
  then have "take (length ''basin '') l = ''basin_''" by (simp add: min_def)
  with b show False by simp
qed

lemma concat_update_split:
  assumes "i < length ls"
  shows "concat (ls[i := x]) = concat (take i ls) @ x @ concat (drop (Suc i) ls)"
  using assms by (simp add: upd_conv_take_nth_drop)

lemma readlines_Cons_hd:
  "\<exists>t rest. readlines (c # cs) = (c # t) # rest"
  by (cases "readlines cs") auto

lemma enable_disable_csv_print_bytes:
  assumes "6 < length (readlines s)"
  shows "enable_disable_csv_print e s =
           Inr (concat (take 6 (readlines s)) @ (if e then CHR ''y'' else CHR ''n'')
                # tl (readlines s ! 6) @ concat (drop 7 (readlines s)))"
  using assms by (simp add: enable_disable_csv_print_def Let_def concat_update_split drop_Suc)

lemma enable_disable_csv_print_again:
  assumes "6 < length (readlines s)" and "enable_disable_csv_print e s = Inr s1"
  shows "enable_disable_csv_print e' s1 = enable_disable_csv_print e' s"
proof -
  let ?ls = "readlines s"
  let ?A = "concat (take 6 ?ls)"
  let ?R = "concat (drop 7 ?ls)"
  let ?c = "if e then CHR ''y'' else CHR ''n''"
  let ?c' = "if e' then CHR ''y'' else CHR ''n''"
  let ?X = "?c # tl (?ls ! 6) @ ?R"
  from assms have s1: "s1 = ?A @ ?X" by (simp add: enable_disable_csv_print_bytes)
  have "list_all complete_line (take 6 ?ls)"
    by (rule lines_ok_take_complete[OF lines_ok_readlines assms(1)])
  then have rl: "readlines s1 = take 6 ?ls @ readlines ?X"
    unfolding s1 by (rule readlines_prefix_complete)
  obtain t rest where X: "readlines ?X = (?c # t) # rest"
    using readlines_Cons_hd by blast
  have "concat (readlines ?X) = ?X" by (rule concat_readlines)
  with X have tr: "t @ concat rest = tl (?ls ! 6) @ ?R" by simp
  have len: "length (take 6 ?ls) = 6" using assms(1) by simp
  have six: "6 < length (readlines s1)" using rl X len by simp
  have n6: "readlines s1 ! 6 = ?c # t"
    using rl X len by (simp add: nth_append)
  have t6: "take 6 (readlines s1) = take 6 ?ls" using rl len by simp
  have d7: "drop 7 (readlines s1) = rest" using rl X len by simp
  have "enable_disable_csv_print e' s1 = Inr (?A @ ?c' # t @ concat rest)"
    using enable_disable_csv_print_bytes[OF six, of e'] n6 t6 d7 by simp
  also have "\<dots> = Inr (?A @ ?c' # tl (?ls ! 6) @ ?R)" using tr by simp
  also have "\<dots> = enable_disable_csv_print e' s" using enable_disable_csv_print_bytes[OF assms(1), of e'] by simp
  finally show ?thesis .
qed

lemma strptime_start: "strptime ''2010-01-01'' = Inr \<lparr>year = 2010, month = 1, day = 1\<rparr>"
  by code_simp

lemma strptime_end: "strptime ''2010-12-31'' = Inr \<lparr>year = 2010, month = 12, day = 31\<rparr>"
  by code_simp

lemma yday_start: "tm_yday \<lparr>year = 2010, month = 1, day = 1\<rparr> = 1"
  by code_simp

lemma yday_end: "tm_yday \<lparr>year = 2010, month = 12, day = 31\<rparr> = 365"
  by code_simp

lemma str_ints: "str_int 1 = ''1''" "str_int 2010 = ''2010''" "str_int 365 = ''365''" "str_int 0 = ''0''"
  by code_simp+

text \<open>The theorem of C4 at a file of three lines, called with the file name
  \<open>basin_wb_day.txt\<close> of the object \<open>basin_wb\<close>: the second line is replaced, the
  line of \<open>basin_wbx\<close> is kept.\<close>

theorem enable_object_replaces_in_place_witness:
  "readlines (enable_object_in_print_prt ''/'' ''basin_wb_day.txt'' True False True False
       (text_of [''objects      daily'', ''basin_wb  n  n  n  n'', ''basin_wbx  y  y  y  y'']))
   = [''objects      daily'' @ [NL],
      build_line_to_add ''basin_wb'' True False True False,
      ''basin_wbx  y  y  y  y'' @ [NL]]
   \<and> build_line_to_add ''basin_wb'' True False True False
       = ''basin_wb                     y             n             y             n'' @ [NL]"
proof -
  let ?W = "text_of [''objects      daily'', ''basin_wb  n  n  n  n'', ''basin_wbx  y  y  y  y'']"
  have rl: "readlines ?W = [''objects      daily'' @ [NL], ''basin_wb  n  n  n  n'' @ [NL],
                            ''basin_wbx  y  y  y  y'' @ [NL]]"
    by code_simp
  have obj: "object_of ''/'' ''basin_wb_day.txt'' = ''basin_wb''"
    by code_simp
  have h1: "1 < length (readlines ?W)" by (simp add: rl)
  have h2: "startswith (readlines ?W ! 1) (object_of ''/'' ''basin_wb_day.txt'' @ '' '')"
    unfolding rl obj by code_simp
  have n0: "\<not> startswith (''objects      daily'' @ [NL]) (''basin_wb'' @ '' '')"
    by code_simp
  have n2: "\<not> startswith (''basin_wbx  y  y  y  y'' @ [NL]) (''basin_wb'' @ '' '')"
    by code_simp
  have h3: "\<forall>j < length (readlines ?W). j \<noteq> 1 \<longrightarrow>
              \<not> startswith (readlines ?W ! j) (object_of ''/'' ''basin_wb_day.txt'' @ '' '')"
    unfolding rl obj using n0 n2 by (simp add: less_Suc_eq nth_Cons')
  have b: "build_line_to_add ''basin_wb'' True False True False
       = ''basin_wb                     y             n             y             n'' @ [NL]"
    by code_simp
  from enable_object_replaces_in_place[OF h1 h2 h3, of True False True False]
  show ?thesis unfolding rl obj b by simp
qed

text \<open>Claim C3, at a file whose last line has no newline.  The object \<open>aqu\<close> is not in
  the one-line file \<open>pest  y\<close>; \<open>enable_object_in_print_prt\<close> writes a file that
  still has one line, the old line with the new record glued to it: no new line was
  appended and the old line is not what it was.\<close>

theorem enable_object_glues_unterminated_line:
  "readlines ''pest  y'' = [''pest  y''] \<and>
   readlines (enable_object_in_print_prt ''/'' ''aqu'' True False False False ''pest  y'')
     = [''pest  yaqu                          y             n             n             n'' @ [NL]]"
  by code_simp

text \<open>Claim C5, at a file whose last line is the line of \<open>basin_sub\<close> and has no
  newline.  Called for \<open>basin\<close>, the loop does not match that line
  (\<open>basin_sub_never_matches\<close>), so the record of \<open>basin\<close> is appended, and lands on
  the line of \<open>basin_sub\<close>.\<close>

theorem basin_glued_onto_basin_sub_line:
  "readlines (text_of [''objects''] @ ''basin_sub  n  n  n  n'')
     = [''objects'' @ [NL], ''basin_sub  n  n  n  n''] \<and>
   readlines (enable_object_in_print_prt ''/'' ''basin'' True False False False
                (text_of [''objects''] @ ''basin_sub  n  n  n  n''))
     = [''objects'' @ [NL],
        ''basin_sub  n  n  n  nbasin                        y             n             n             n'' @ [NL]]"
  by code_simp

lemma lines_ok_update_head:
  assumes "lines_ok ls" and "i < length ls" and "ls ! i = c0 # t" and "c0 \<noteq> NL" and "c \<noteq> NL"
  shows "lines_ok (ls[i := c # t])"
proof (rule lines_okI)
  fix j assume j: "j < length (ls[i := c # t])"
  show "ls[i := c # t] ! j \<noteq> [] \<and> NL \<notin> set (butlast (ls[i := c # t] ! j))"
  proof (cases "j = i")
    case True
    have "NL \<notin> set (butlast (c0 # t))"
      using lines_ok_nth[OF assms(1,2)] assms(3) by simp
    then have "NL \<notin> set (butlast (c # t))" using assms(5) by (cases t) auto
    with True assms(2) show ?thesis by simp
  next
    case False
    with j lines_ok_nth[OF assms(1), of j] show ?thesis by simp
  qed
next
  fix j assume j: "Suc j < length (ls[i := c # t])"
  then have c: "complete_line (ls ! j)"
    using lines_ok_nth_complete[OF assms(1), of j] by simp
  show "last (ls[i := c # t] ! j) = NL"
  proof (cases "j = i")
    case True
    with c assms(3) have "last (c0 # t) = NL" by (simp add: complete_line_def)
    with assms(4) have "t \<noteq> [] \<and> last t = NL" by (cases t) auto
    with True assms(2) show ?thesis by simp
  next
    case False
    with c show ?thesis by (simp add: complete_line_def)
  qed
qed

text \<open>Claim C7, as amended.  Let the file have at least seven lines, and let line 7
  have a character before its line terminator.  Then \<open>enable_csv_print\<close> writes a file
  with the same lines but for line 7, which is \<open>y\<close> followed by the old line 7 without
  its first character; \<open>disable_csv_print\<close> does the same with \<open>n\<close>, on that file and
  on the old one.
  After both, the lines are those of the old file but for line 7, which is \<open>n\<close>
  followed by the old line 7 without its first character: the file is the old one
  exactly when the old line 7 began with \<open>n\<close>.\<close>

theorem csv_round_trip:
  assumes "7 \<le> length (readlines s)" and "hd (readlines s ! 6) \<noteq> NL"
  shows "\<exists>s1 s2.
           enable_csv_print s = Inr s1 \<and>
           readlines s1 = (readlines s)[6 := CHR ''y'' # tl (readlines s ! 6)] \<and>
           disable_csv_print s1 = Inr s2 \<and>
           readlines s2 = (readlines s1)[6 := CHR ''n'' # tl (readlines s1 ! 6)] \<and>
           readlines s2 = (readlines s)[6 := CHR ''n'' # tl (readlines s ! 6)] \<and>
           ((s2 = s) = (hd (readlines s ! 6) = CHR ''n'')) \<and>
           (\<exists>s3. disable_csv_print s = Inr s3 \<and>
                 readlines s3 = (readlines s)[6 := CHR ''n'' # tl (readlines s ! 6)])"
proof -
  let ?ls = "readlines s"
  let ?t = "tl (?ls ! 6)"
  let ?s1 = "concat (?ls[6 := CHR ''y'' # ?t])"
  let ?s2 = "concat (?ls[6 := CHR ''n'' # ?t])"
  from assms(1) have six: "6 < length ?ls" by simp
  have ne: "?ls ! 6 \<noteq> []"
    using lines_ok_nth[OF lines_ok_readlines six] by simp
  then have l7: "?ls ! 6 = hd (?ls ! 6) # ?t" by simp
  have oky: "lines_ok (?ls[6 := CHR ''y'' # ?t])"
    by (rule lines_ok_update_head[OF lines_ok_readlines six l7 assms(2)]) simp
  have okn: "lines_ok (?ls[6 := CHR ''n'' # ?t])"
    by (rule lines_ok_update_head[OF lines_ok_readlines six l7 assms(2)]) simp
  have r1: "readlines ?s1 = ?ls[6 := CHR ''y'' # ?t]"
    using oky by (rule readlines_concat)
  have r2: "readlines ?s2 = ?ls[6 := CHR ''n'' # ?t]"
    using okn by (rule readlines_concat)
  have en: "enable_csv_print s = Inr ?s1"
    using six by (simp add: enable_csv_print_def enable_disable_csv_print_def Let_def drop_Suc)
  have six1: "6 < length (readlines ?s1)" using six by (simp add: r1)
  have n6: "readlines ?s1 ! 6 = CHR ''y'' # ?t" using six by (simp add: r1)
  have upd: "(readlines ?s1)[6 := CHR ''n'' # tl (readlines ?s1 ! 6)] = ?ls[6 := CHR ''n'' # ?t]"
    unfolding n6 by (simp add: r1)
  have dis: "disable_csv_print ?s1 = Inr ?s2"
    using six1 upd
    by (simp add: disable_csv_print_def enable_disable_csv_print_def Let_def drop_Suc)
  have "s = concat (?ls[6 := ?ls ! 6])" by (simp add: concat_readlines)
  also have "\<dots> = concat (take 6 ?ls) @ (?ls ! 6) @ concat (drop 7 ?ls)"
    using six by (simp only: concat_update_split) simp
  finally have s: "s = concat (take 6 ?ls) @ (hd (?ls ! 6) # ?t) @ concat (drop 7 ?ls)"
    using ne by simp
  have n: "?s2 = concat (take 6 ?ls) @ (CHR ''n'' # ?t) @ concat (drop 7 ?ls)"
    using six by (simp only: concat_update_split) simp
  have eq: "(?s2 = s) = (hd (?ls ! 6) = CHR ''n'')"
    by (subst (2) s, subst n) auto
  have dn: "disable_csv_print s = Inr ?s2"
    using six by (simp add: disable_csv_print_def enable_disable_csv_print_def Let_def drop_Suc)
  from dn r2 have direct: "\<exists>s3. disable_csv_print s = Inr s3 \<and>
                 readlines s3 = ?ls[6 := CHR ''n'' # ?t]"
    by blast
  from en r1 dis r2 upd eq direct show ?thesis
    by (intro exI[of _ ?s1] exI[of _ ?s2]) simp
qed

text \<open>The theorem of C7 at a file of eight lines whose line 7 begins with \<open>n\<close>.\<close>

theorem csv_round_trip_witness:
  "enable_csv_print (text_of [''1'', ''2'', ''3'', ''4'', ''5'', ''6'', ''n   x'', ''8''])
     = Inr (text_of [''1'', ''2'', ''3'', ''4'', ''5'', ''6'', ''y   x'', ''8'']) \<and>
   disable_csv_print (text_of [''1'', ''2'', ''3'', ''4'', ''5'', ''6'', ''y   x'', ''8''])
     = Inr (text_of [''1'', ''2'', ''3'', ''4'', ''5'', ''6'', ''n   x'', ''8''])"
proof -
  let ?W = "text_of [''1'', ''2'', ''3'', ''4'', ''5'', ''6'', ''n   x'', ''8'']"
  let ?Y = "text_of [''1'', ''2'', ''3'', ''4'', ''5'', ''6'', ''y   x'', ''8'']"
  have h1: "7 \<le> length (readlines ?W)" by code_simp
  have h2: "hd (readlines ?W ! 6) \<noteq> NL" by code_simp
  have n: "hd (readlines ?W ! 6) = CHR ''n''" by code_simp
  have y: "concat ((readlines ?W)[6 := CHR ''y'' # tl (readlines ?W ! 6)]) = ?Y"
    by code_simp
  from csv_round_trip[OF h1 h2] obtain s1 s2 where
    e: "enable_csv_print ?W = Inr s1" and
    r: "readlines s1 = (readlines ?W)[6 := CHR ''y'' # tl (readlines ?W ! 6)]" and
    d: "disable_csv_print s1 = Inr s2" and
    q: "(s2 = ?W) = (hd (readlines ?W ! 6) = CHR ''n'')"
    by blast
  have "s1 = concat (readlines s1)" by (simp add: concat_readlines)
  then have s1: "s1 = ?Y" unfolding r y .
  have s2: "s2 = ?W" using q n by simp
  from e d show ?thesis unfolding s1 s2 by simp
qed

text \<open>Claim C7 as stated fails on a file whose line 7 begins with \<open>y\<close>: enabling
  leaves it as it is, disabling then makes it begin with \<open>n\<close>.\<close>

theorem csv_round_trip_counterexample:
  "enable_csv_print (text_of [''1'', ''2'', ''3'', ''4'', ''5'', ''6'', ''y   x''])
     = Inr (text_of [''1'', ''2'', ''3'', ''4'', ''5'', ''6'', ''y   x'']) \<and>
   disable_csv_print (text_of [''1'', ''2'', ''3'', ''4'', ''5'', ''6'', ''y   x''])
     = Inr (text_of [''1'', ''2'', ''3'', ''4'', ''5'', ''6'', ''n   x'']) \<and>
   readlines (text_of [''1'', ''2'', ''3'', ''4'', ''5'', ''6'', ''n   x'']) ! 6
     \<noteq> readlines (text_of [''1'', ''2'', ''3'', ''4'', ''5'', ''6'', ''y   x'']) ! 6"
  by code_simp

text \<open>When line 7 is only its line terminator, \<open>lines[6][1:]\<close> is empty and the
  terminator is lost: line 8 is joined to line 7.\<close>

lemma csv_print_on_empty_line:
  "enable_csv_print (text_of [''1'', ''2'', ''3'', ''4'', ''5'', ''6'', '''', ''8''])
     = Inr (text_of [''1'', ''2'', ''3'', ''4'', ''5'', ''6''] @ ''y8'' @ [NL]) \<and>
   length (readlines (text_of [''1'', ''2'', ''3'', ''4'', ''5'', ''6''] @ ''y8'' @ [NL])) = 7"
  by code_simp

lemma format_time_sim_2010:
  assumes "5 \<le> length es"
  shows "format_time_sim (es[0 := PInt 1, 1 := PInt 2010, 2 := PInt 365, 3 := PInt 2010,
                             4 := PInt 0])
           = ''       1       2010        365       2010          0 '' @ [NL]"
proof -
  from assms have len: "0 < length es" "1 < length es" "2 < length es" "3 < length es"
    "4 < length es" by auto
  let ?es = "es[0 := PInt 1, 1 := PInt 2010, 2 := PInt 365, 3 := PInt 2010, 4 := PInt 0]"
  from len have "?es ! 0 = PInt 1" "?es ! 1 = PInt 2010" "?es ! 2 = PInt 365"
    "?es ! 3 = PInt 2010" "?es ! 4 = PInt 0"
    by (simp_all add: nth_list_update)
  then have "format_time_sim ?es
               = format_time_sim [PInt 1, PInt 2010, PInt 365, PInt 2010, PInt 0]"
    by (simp add: format_time_sim_def)
  also have "\<dots> = ''       1       2010        365       2010          0 '' @ [NL]"
    by code_simp
  finally show ?thesis .
qed

lemma set_simulation_time_parsed:
  assumes "strptime start_date = Inr t1" and "strptime end_date = Inr t2"
    and "3 \<le> length (readlines s)" and "5 \<le> length (split_ws (readlines s ! 2))"
  shows "set_simulation_time start_date end_date step s
           = Inr (concat ((readlines s)[2 := format_time_sim
                ((map PStr (split_ws (readlines s ! 2)))
                   [0 := PInt (tm_yday t1), 1 := PInt (tm_year t1), 2 := PInt (tm_yday t2),
                    3 := PInt (tm_year t2), 4 := PInt step])]))"
  using assms by (simp add: set_simulation_time_def Let_def)

text \<open>Claim C6.  On a \<open>time.sim\<close> with at least three lines, the third of at least five
  whitespace-separated fields, \<open>set_simulation_time("2010-01-01", "2010-12-31", 0)\<close>
  succeeds and writes the old lines with line 3 replaced by the five right-justified
  fields (widths 8, 10, 10, 10, 10, each followed by a space) and a newline; read
  back, the file has exactly these lines.\<close>

theorem set_simulation_time_2010:
  assumes "3 \<le> length (readlines s)"
    and "5 \<le> length (split_ws (readlines s ! 2))"
  shows "set_simulation_time ''2010-01-01'' ''2010-12-31'' 0 s
           = Inr (concat ((readlines s)
                    [2 := ''       1       2010        365       2010          0 '' @ [NL]])) \<and>
         readlines (concat ((readlines s)
                    [2 := ''       1       2010        365       2010          0 '' @ [NL]]))
           = (readlines s)[2 := ''       1       2010        365       2010          0 '' @ [NL]]"
proof -
  let ?L = "''       1       2010        365       2010          0 '' @ [NL]"
  have fmt: "format_time_sim ((map PStr (split_ws (readlines s ! 2)))
               [0 := PInt 1, 1 := PInt 2010, 2 := PInt 365, 3 := PInt 2010, 4 := PInt 0]) = ?L"
    by (rule format_time_sim_2010) (use assms(2) in simp)
  obtain t1 where t1: "strptime ''2010-01-01'' = Inr t1" "tm_yday t1 = 1" "tm_year t1 = 2010"
    using strptime_start yday_start by (simp add: tm_year_def)
  obtain t2 where t2: "strptime ''2010-12-31'' = Inr t2" "tm_yday t2 = 365" "tm_year t2 = 2010"
    using strptime_end yday_end by (simp add: tm_year_def)
  have run: "set_simulation_time ''2010-01-01'' ''2010-12-31'' 0 s
               = Inr (concat ((readlines s)[2 := ?L]))"
    using set_simulation_time_parsed[OF t1(1) t2(1) assms, of 0] fmt
    by (simp only: t1 t2)
  have "complete_line ?L" by (simp add: complete_line_def)
  then have "lines_ok ((readlines s)[2 := ?L])"
    using assms(1) by (intro lines_ok_update lines_ok_readlines) simp_all
  then have "readlines (concat ((readlines s)[2 := ?L])) = (readlines s)[2 := ?L]"
    by (rule readlines_concat)
  with run show ?thesis by simp
qed

text \<open>The theorem of C6 at a \<open>time.sim\<close> of four lines.\<close>

theorem set_simulation_time_2010_witness:
  "set_simulation_time ''2010-01-01'' ''2010-12-31'' 0
     (text_of [''time.sim'', ''day_start  yrc_start  day_end  yrc_end  step'',
               ''       0      2000        0     2005     0'', ''''])
     = Inr (text_of [''time.sim'', ''day_start  yrc_start  day_end  yrc_end  step'',
               ''       1       2010        365       2010          0 '', ''''])"
proof -
  let ?W = "text_of [''time.sim'', ''day_start  yrc_start  day_end  yrc_end  step'',
               ''       0      2000        0     2005     0'', '''']"
  have h1: "3 \<le> length (readlines ?W)" by code_simp
  have h2: "5 \<le> length (split_ws (readlines ?W ! 2))" by code_simp
  have e: "concat ((readlines ?W)
             [2 := ''       1       2010        365       2010          0 '' @ [NL]])
           = text_of [''time.sim'', ''day_start  yrc_start  day_end  yrc_end  step'',
               ''       1       2010        365       2010          0 '', '''']"
    by code_simp
  from set_simulation_time_2010[OF h1 h2] show ?thesis unfolding e by simp
qed

section \<open>change_params, copy_swat and run_parallel_swat at concrete inputs\<close>

text \<open>Claim C8, at a key with a dot.  The template holds \<open>#abc#\<close> and \<open>#a.c#\<close>; with the
  tokens \<open>{"a.c": 1}\<close> only \<open>#a.c#\<close> is an occurrence of the token, but \<open>re.sub\<close>
  reads the key as a regular expression, in which the dot matches any character:
  \<open>change_params\<close> writes \<open>soils.sol\<close> with both replaced.\<close>

theorem change_params_key_is_a_pattern:
  "fst (change_params example_reader ''soils.sol.tpl'' [(''a.c'', PInt 1)] example_world)
     = Return () \<and>
   fs_lookup (files (snd (change_params example_reader ''soils.sol.tpl'' [(''a.c'', PInt 1)]
                            example_world))) [''ws'', ''soils.sol'']
     = Some (File ''x 1 y 1 z'')"
  by code_simp

text \<open>With a key of letters only the same template is rewritten as the claim says.\<close>

lemma change_params_literal_key:
  "fs_lookup (files (snd (change_params example_reader ''soils.sol.tpl''
                            [(''abc'', PStr ''0.555'')] example_world))) [''ws'', ''soils.sol'']
     = Some (File ''x 0.555 y #a.c# z'')"
  by code_simp

text \<open>Claim C2, at \<open>overwrite=True\<close> and a target that is a regular file.  The branch
  \<open>elif overwrite\<close> is taken, the target is no directory, and \<open>os.makedirs\<close> raises
  \<open>FileExistsError\<close>; the test that raises \<open>TypeError("dir must be a folder")\<close> stands
  in a later branch, which no call reaches.\<close>

theorem copy_swat_overwrite_onto_file:
  "isfile (files example_world) [''f''] \<and>
   fst (copy_swat example_env example_reader (Some [''f'']) True example_world)
     = Raise FileExistsError"
  by code_simp

text \<open>Claim C9.  Without a client, \<open>run_parallel_swat\<close> is the loop \<open>run_all\<close> over the
  parameter sets in their order, whatever \<open>n_workers\<close> is: for every world the
  outcome and the world left behind (files, names drawn, working directory, lines
  printed) are the same for any two worker counts.\<close>

theorem run_parallel_swat_ignores_n_workers:
  "run_parallel_swat env self params n1 dir None = run_parallel_swat env self params n2 dir None
   \<and> run_parallel_swat env self params n1 dir None = run_all env self dir params []"
  by (simp add: run_parallel_swat_def Let_def)

section \<open>Properties of the file system operations\<close>

lemma fs_lookup_update:
  "fs_lookup (AList.update p v fs) q =
     (if q = [] then Some Dir else if q = p then Some v else fs_lookup fs q)"
  by (simp add: fs_lookup_def update_conv')

lemma fs_lookup_Nil [simp]: "fs_lookup fs [] = Some Dir"
  by (simp add: fs_lookup_def)

lemma isdir_root [simp]: "isdir fs []"
  by (simp add: isdir_def)

lemma wf_fs_parent:
  assumes "wf_fs fs" "path_exists fs q" "q \<noteq> []"
  shows "isdir fs (butlast q)"
proof -
  from assms(2,3) obtain v where "map_of fs q = Some v"
    by (auto simp: path_exists_def fs_lookup_def)
  then have "(q, v) \<in> set fs" by (rule map_of_SomeD)
  with assms(1,3) show ?thesis
    by (auto simp: wf_fs_def list_all_iff)
qed

lemma isdir_exists: "isdir fs q \<Longrightarrow> path_exists fs q"
  by (simp add: isdir_def path_exists_def)

lemma wf_fs_absent_below:
  assumes "wf_fs fs" "\<not> path_exists fs d"
  shows "\<not> path_exists fs (d @ r)"
proof (induction r rule: rev_induct)
  case Nil
  then show ?case using assms(2) by simp
next
  case (snoc x r)
  show ?case
  proof
    assume "path_exists fs (d @ r @ [x])"
    then have "isdir fs (butlast (d @ r @ [x]))"
      using assms(1) by (intro wf_fs_parent) auto
    then have "isdir fs (d @ r)" by (simp add: butlast_append)
    with snoc show False by (auto dest: isdir_exists)
  qed
qed

lemma wf_fs_prefix_isdir:
  assumes "wf_fs fs" "path_exists fs q" "strict_prefix r q"
  shows "isdir fs r"
proof -
  from assms(3) obtain z zs where q: "q = r @ z # zs"
    by (rule strict_prefixE')
  have "isdir fs (r @ take (length (z # zs) - n - 1) (z # zs))" if "n < length (z # zs)" for n
    using that
  proof (induction n)
    case 0
    have "isdir fs (butlast q)" using assms(1,2) q by (intro wf_fs_parent) auto
    then show ?case by (simp add: q butlast_append butlast_conv_take)
  next
    case (Suc n)
    then have *: "isdir fs (r @ take (length zs - n) (z # zs))" by simp
    let ?t = "r @ take (length zs - n) (z # zs)"
    have ne: "?t \<noteq> []" using Suc.prems by auto
    have "isdir fs (butlast ?t)"
      using assms(1) * ne by (intro wf_fs_parent isdir_exists)
    moreover have "butlast ?t = r @ take (length (z # zs) - Suc n - 1) (z # zs)"
      using Suc.prems by (simp add: butlast_append butlast_take)
    ultimately show ?case by simp
  qed
  from this[of "length zs"] show ?thesis by simp
qed

lemma access_error_enoent:
  "(\<forall>q. prefix q p \<longrightarrow> \<not> isfile fs q) \<Longrightarrow> access_error fs p = FileNotFoundError"
proof (induction fs p rule: access_error.induct)
  case (1 fs p)
  show ?case
  proof (cases "p = []")
    case True
    then show ?thesis by (simp add: access_error.simps)
  next
    case False
    have pb: "prefix (butlast p) p" by (simp add: prefixeq_butlast)
    show ?thesis
    proof (cases "fs_lookup fs (butlast p)")
      case None
      have "\<forall>q. prefix q (butlast p) \<longrightarrow> \<not> isfile fs q"
        using "1.prems" pb by (meson prefix_order.trans)
      with "1.IH"[OF False None] have "access_error fs (butlast p) = FileNotFoundError" .
      with False None show ?thesis by (subst access_error.simps) simp
    next
      case (Some n)
      have "\<not> isfile fs (butlast p)" using "1.prems" pb by blast
      with Some have "n = Dir" by (cases n) (auto simp: isfile_def)
      with False Some show ?thesis by (subst access_error.simps) simp
    qed
  qed
qed

lemma mkdir_ok:
  assumes "\<not> path_exists (files w) p" "isdir (files w) (butlast p)"
  shows "mkdir p w = (Return (), w\<lparr>files := AList.update p Dir (files w)\<rparr>)"
  using assms by (simp add: mkdir_def isdir_def)

lemma mkdir_exists:
  assumes "path_exists (files w) p"
  shows "mkdir p w = (Raise FileExistsError, w)"
  using assms by (simp add: mkdir_def)

lemma mkdir_noparent:
  assumes "\<not> path_exists (files w) p" "fs_lookup (files w) (butlast p) = None"
  shows "mkdir p w = (Raise (access_error (files w) p), w)"
  using assms by (simp add: mkdir_def)

lemma not_file_exists_isdir:
  "path_exists fs q \<Longrightarrow> \<not> isfile fs q \<Longrightarrow> isdir fs q"
  by (auto simp: path_exists_def isfile_def isdir_def split: option.splits node.splits)

lemma makedirs_ok:
  assumes "wf_fs (files w)" "\<forall>q. prefix q d \<longrightarrow> \<not> isfile (files w) q"
  shows "\<exists>fs'. makedirs d w = (Return (), w\<lparr>files := fs'\<rparr>) \<and>
           (\<forall>q. fs_lookup fs' q = (if prefix q d then Some Dir else fs_lookup (files w) q))"
  using assms
proof (induction d rule: rev_induct)
  case Nil
  have "makedirs [] w = (Return (), w)"
    by (subst makedirs.simps) (simp add: mkdir_def path_exists_def fs_lookup_def isdir_def)
  then have "makedirs [] w = (Return (), w\<lparr>files := files w\<rparr>) \<and>
      (\<forall>q. fs_lookup (files w) q = (if prefix q [] then Some Dir else fs_lookup (files w) q))"
    by (simp add: fs_lookup_def)
  then show ?case by blast
next
  case (snoc x ds)
  let ?d = "ds @ [x]"
  have nf: "\<forall>q. prefix q ds \<longrightarrow> \<not> isfile (files w) q"
    using snoc.prems(2) by (meson prefix_order.trans prefixI)
  have pre: "prefix q ?d \<longleftrightarrow> q = ?d \<or> prefix q ds" for q
    by (simp add: prefix_snoc)
  show ?case
  proof (cases "path_exists (files w) ds")
    case True
    then have dsdir: "isdir (files w) ds"
      using nf by (intro not_file_exists_isdir) auto
    have anc: "fs_lookup (files w) q = Some Dir" if "prefix q ds" for q
    proof (cases "q = ds")
      case True then show ?thesis using dsdir by (simp add: isdir_def)
    next
      case False
      with that have "strict_prefix q ds" by (simp add: strict_prefix_def)
      from wf_fs_prefix_isdir[OF snoc.prems(1) True this] show ?thesis by (simp add: isdir_def)
    qed
    show ?thesis
    proof (cases "path_exists (files w) ?d")
      case ex: True
      then have "isdir (files w) ?d"
        using snoc.prems(2) by (intro not_file_exists_isdir) auto
      then have "makedirs ?d w = (Return (), w)"
        using True ex by (subst makedirs.simps) (simp add: mkdir_exists)
      moreover have "\<forall>q. fs_lookup (files w) q = (if prefix q ?d then Some Dir else fs_lookup (files w) q)"
        using anc \<open>isdir (files w) ?d\<close> by (auto simp: pre isdir_def)
      ultimately have "makedirs ?d w = (Return (), w\<lparr>files := files w\<rparr>) \<and>
          (\<forall>q. fs_lookup (files w) q = (if prefix q ?d then Some Dir else fs_lookup (files w) q))"
        by simp
      then show ?thesis by blast
    next
      case nex: False
      have "makedirs ?d w = (Return (), w\<lparr>files := AList.update ?d Dir (files w)\<rparr>)"
        using True nex dsdir by (subst makedirs.simps) (simp add: mkdir_ok)
      moreover have "\<forall>q. fs_lookup (AList.update ?d Dir (files w)) q =
                        (if prefix q ?d then Some Dir else fs_lookup (files w) q)"
        using anc by (auto simp: fs_lookup_update pre)
      ultimately show ?thesis by blast
    qed
  next
    case False
    from snoc.IH[OF snoc.prems(1) nf] obtain fs1 where
      m1: "makedirs ds w = (Return (), w\<lparr>files := fs1\<rparr>)" and
      l1: "\<forall>q. fs_lookup fs1 q = (if prefix q ds then Some Dir else fs_lookup (files w) q)"
      by blast
    have "\<not> path_exists (files w) ?d"
      using wf_fs_absent_below[OF snoc.prems(1) False] by simp
    then have nex1: "\<not> path_exists fs1 ?d"
      using l1 by (simp add: path_exists_def)
    have dir1: "isdir fs1 ds" using l1 by (simp add: isdir_def)
    have "makedirs ?d w = (Return (), w\<lparr>files := AList.update ?d Dir fs1\<rparr>)"
      using False m1 nex1 dir1
      by (subst makedirs.simps) (simp add: io_except_def mkdir_ok)
    moreover have "\<forall>q. fs_lookup (AList.update ?d Dir fs1) q =
                      (if prefix q ?d then Some Dir else fs_lookup (files w) q)"
      using l1 by (auto simp: fs_lookup_update pre)
    ultimately show ?thesis by blast
  qed
qed

lemma set_entries: "set (entries fs p) = {f. path_exists fs (p @ [f])}"
proof -
  have "(\<exists>v. (q, v) \<in> set fs) \<longleftrightarrow> map_of fs q \<noteq> None" for q
    by (metis map_of_SomeD not_None_eq weak_map_of_SomeI)
  then have ex: "path_exists fs (p @ [f]) \<longleftrightarrow> (\<exists>v. (p @ [f], v) \<in> set fs)" for f
    by (simp add: path_exists_def fs_lookup_def)
  show ?thesis
  proof (rule set_eqI)
    fix f
    have "f \<in> set (entries fs p) \<longleftrightarrow> (\<exists>q v. (q, v) \<in> set fs \<and> q \<noteq> [] \<and> butlast q = p \<and> last q = f)"
      by (auto simp: entries_def image_iff)
    also have "\<dots> \<longleftrightarrow> (\<exists>v. (p @ [f], v) \<in> set fs)"
      by (metis append_butlast_last_id butlast_snoc last_snoc snoc_eq_iff_butlast)
    finally show "f \<in> set (entries fs p) \<longleftrightarrow> f \<in> {f. path_exists fs (p @ [f])}"
      by (simp add: ex)
  qed
qed

lemma copy2_file:
  assumes "fs_lookup (files w) src = Some (File t)" "\<not> isdir (files w) dst" "dst \<noteq> src"
    "isdir (files w) (butlast dst)"
  shows "copy2 src dst w = (Return (), w\<lparr>files := AList.update dst (File t) (files w)\<rparr>)"
  using assms
  by (auto simp: copy2_def read_file_def write_file_def io_bind_def isdir_def
           split: option.splits node.splits)

lemma copy_files_ok:
  assumes "isdir (files w) p" "p \<noteq> root" "\<forall>g. \<not> isdir (files w) (p @ [g])"
    "\<forall>f\<in>set ls. \<not> excluded f \<longrightarrow> isfile (files w) (root @ [f])"
  shows "\<exists>fs'. copy_files root p ls w = (Return (), w\<lparr>files := fs'\<rparr>) \<and>
           (\<forall>q. fs_lookup fs' q =
                  (if \<exists>f\<in>set ls. \<not> excluded f \<and> q = p @ [f]
                   then fs_lookup (files w) (root @ [last q]) else fs_lookup (files w) q))"
  using assms
proof (induction ls arbitrary: w)
  case Nil
  have "copy_files root p [] w = (Return (), w\<lparr>files := files w\<rparr>) \<and>
        (\<forall>q. fs_lookup (files w) q =
                  (if \<exists>f\<in>set []. \<not> excluded f \<and> q = p @ [f]
                   then fs_lookup (files w) (root @ [last q]) else fs_lookup (files w) q))"
    by (simp add: io_return_def)
  then show ?case by blast
next
  case (Cons f rest)
  show ?case
  proof (cases "excluded f")
    case True
    have "\<forall>f\<in>set rest. \<not> excluded f \<longrightarrow> isfile (files w) (root @ [f])"
      using Cons.prems(4) by simp
    from Cons.IH[OF Cons.prems(1,2,3) this] obtain fs' where
      r: "copy_files root p rest w = (Return (), w\<lparr>files := fs'\<rparr>)" and
      l: "\<forall>q. fs_lookup fs' q =
                  (if \<exists>f\<in>set rest. \<not> excluded f \<and> q = p @ [f]
                   then fs_lookup (files w) (root @ [last q]) else fs_lookup (files w) q)"
      by blast
    have "copy_files root p (f # rest) w = (Return (), w\<lparr>files := fs'\<rparr>)"
      using True r by simp
    moreover have "\<forall>q. fs_lookup fs' q =
                  (if \<exists>g\<in>set (f # rest). \<not> excluded g \<and> q = p @ [g]
                   then fs_lookup (files w) (root @ [last q]) else fs_lookup (files w) q)"
      using l True by auto
    ultimately show ?thesis by blast
  next
    case False
    with Cons.prems(4) have "isfile (files w) (root @ [f])" by simp
    then obtain t where t: "fs_lookup (files w) (root @ [f]) = Some (File t)"
      by (auto simp: isfile_def split: option.splits node.splits)
    let ?w1 = "w\<lparr>files := AList.update (p @ [f]) (File t) (files w)\<rparr>"
    have c: "copy2 (root @ [f]) (p @ [f]) w = (Return (), ?w1)"
      using t Cons.prems(1,2,3) by (intro copy2_file) auto
    have l1: "fs_lookup (AList.update (p @ [f]) (File t) (files w)) q =
                (if q = p @ [f] then Some (File t) else fs_lookup (files w) q)" for q
      by (simp add: fs_lookup_update)
    have h1: "isdir (files ?w1) p" using Cons.prems(1) by (simp add: isdir_def l1)
    have h3: "\<forall>g. \<not> isdir (files ?w1) (p @ [g])" using Cons.prems(3) by (simp add: isdir_def l1)
    have h4: "\<forall>f\<in>set rest. \<not> excluded f \<longrightarrow> isfile (files ?w1) (root @ [f])"
      using Cons.prems(2,4) by (simp add: isfile_def l1)
    from Cons.IH[OF h1 Cons.prems(2) h3 h4] obtain fs' where
      r: "copy_files root p rest ?w1 = (Return (), ?w1\<lparr>files := fs'\<rparr>)" and
      l: "\<forall>q. fs_lookup fs' q =
                  (if \<exists>f\<in>set rest. \<not> excluded f \<and> q = p @ [f]
                   then fs_lookup (files ?w1) (root @ [last q]) else fs_lookup (files ?w1) q)"
      by blast
    have "copy_files root p (f # rest) w = (Return (), w\<lparr>files := fs'\<rparr>)"
      using False c r by (simp add: io_bind_def)
    moreover have "\<forall>q. fs_lookup fs' q =
                  (if \<exists>g\<in>set (f # rest). \<not> excluded g \<and> q = p @ [g]
                   then fs_lookup (files w) (root @ [last q]) else fs_lookup (files w) q)"
      using l False t Cons.prems(2) by (auto simp: l1)
    ultimately show ?thesis by blast
  qed
qed

lemma TMP_MAX_Suc: "TMP_MAX = Suc (TMP_MAX - 1)"
  by (simp add: TMP_MAX_def)

lemma mkdtemp_enoent:
  assumes "wf_fs (files w)" "\<not> path_exists (files w) d"
    "\<forall>q. prefix q d \<longrightarrow> \<not> isfile (files w) q"
  shows "mkdtemp env (Some d) w = (Raise FileNotFoundError, w\<lparr>rng := Suc (rng w)\<rparr>)"
proof -
  let ?p = "d @ [''tmp'' @ names env (rng w)]"
  let ?w1 = "w\<lparr>rng := Suc (rng w)\<rparr>"
  have nex: "\<not> path_exists (files ?w1) ?p"
    using wf_fs_absent_below[OF assms(1,2)] by simp
  have "fs_lookup (files ?w1) (butlast ?p) = None"
    using assms(2) by (simp add: path_exists_def)
  from mkdir_noparent[OF nex this]
  have m: "mkdir ?p ?w1 = (Raise (access_error (files w) ?p), ?w1)" by simp
  have "\<forall>q. prefix q ?p \<longrightarrow> \<not> isfile (files w) q"
    using assms(3) nex by (auto simp: prefix_snoc isfile_def path_exists_def)
  then have "access_error (files w) ?p = FileNotFoundError" by (rule access_error_enoent)
  with m have "mkdtemp_loop (names env) d (Suc (TMP_MAX - 1)) w = (Raise FileNotFoundError, ?w1)"
    by (simp add: Let_def)
  then show ?thesis
    unfolding mkdtemp_def using TMP_MAX_Suc by simp
qed

lemma mkdtemp_fresh:
  assumes "isdir (files w) d" "\<not> path_exists (files w) (d @ [''tmp'' @ names env (rng w)])"
  shows "mkdtemp env (Some d) w =
           (Return (d @ [''tmp'' @ names env (rng w)]),
            w\<lparr>rng := Suc (rng w),
              files := AList.update (d @ [''tmp'' @ names env (rng w)]) Dir (files w)\<rparr>)"
proof -
  let ?p = "d @ [''tmp'' @ names env (rng w)]"
  let ?w1 = "w\<lparr>rng := Suc (rng w)\<rparr>"
  have "mkdir ?p ?w1 = (Return (), ?w1\<lparr>files := AList.update ?p Dir (files ?w1)\<rparr>)"
    using assms by (intro mkdir_ok) auto
  then have "mkdtemp_loop (names env) d (Suc (TMP_MAX - 1)) w =
      (Return ?p, ?w1\<lparr>files := AList.update ?p Dir (files ?w1)\<rparr>)"
    by (simp add: Let_def)
  then show ?thesis
    unfolding mkdtemp_def using TMP_MAX_Suc by simp
qed

section \<open>The clone in a directory that does not exist\<close>

lemma copy_swat_fresh_clone:
  assumes wf: "wf_fs (files w)"
    and absent: "\<not> path_exists (files w) d"
    and nofile: "\<forall>q. prefix q d \<longrightarrow> \<not> isfile (files w) q"
    and root: "isdir (files w) (root_folder self)"
    and outside: "\<not> prefix (root_folder self) d"
    and regular: "\<forall>f\<in>set (entries (files w) (root_folder self)).
                    \<not> excluded f \<longrightarrow> isfile (files w) (root_folder self @ [f])"
    and p: "p = d @ [''tmp'' @ names env (Suc (rng w))]"
  shows "\<exists>fs'. copy_swat env self (Some d) False w =
                  (Return p, w\<lparr>rng := Suc (Suc (rng w)), files := fs'\<rparr>) \<and>
           (\<forall>q. fs_lookup fs' q =
                  (if \<exists>f\<in>set (entries (files w) (root_folder self)). \<not> excluded f \<and> q = p @ [f]
                   then fs_lookup (files w) (root_folder self @ [last q])
                   else if q = p \<or> prefix q d then Some Dir
                   else fs_lookup (files w) q))"
proof -
  let ?root = "root_folder self"
  let ?w1 = "w\<lparr>rng := Suc (rng w)\<rparr>"
  have m1: "mkdtemp env (Some d) w = (Raise FileNotFoundError, ?w1)"
    using wf absent nofile by (rule mkdtemp_enoent)
  have "wf_fs (files ?w1)" "\<forall>q. prefix q d \<longrightarrow> \<not> isfile (files ?w1) q"
    using wf nofile by simp_all
  from makedirs_ok[OF this] obtain fs2 where
    m2: "makedirs d ?w1 = (Return (), ?w1\<lparr>files := fs2\<rparr>)" and
    l2: "\<forall>q. fs_lookup fs2 q = (if prefix q d then Some Dir else fs_lookup (files w) q)"
    by auto
  let ?w2 = "?w1\<lparr>files := fs2\<rparr>"
  have pabs: "\<not> path_exists (files w) (p @ r)" for r
    using wf_fs_absent_below[OF wf absent, of "[''tmp'' @ names env (Suc (rng w))] @ r"]
    by (simp add: p)
  have pnp: "\<not> prefix (p @ r) d" for r
  proof
    assume "prefix (p @ r) d"
    then have "length (p @ r) \<le> length d" by (rule prefix_length_le)
    then show False by (simp add: p)
  qed
  have "isdir (files ?w2) d" using l2 by (simp add: isdir_def)
  moreover have "\<not> path_exists (files ?w2) (d @ [''tmp'' @ names env (rng ?w2)])"
    using l2 pabs[of "[]"] pnp[of "[]"] by (simp add: path_exists_def p)
  ultimately have m3: "mkdtemp env (Some d) ?w2 =
      (Return p, ?w2\<lparr>rng := Suc (rng ?w2), files := AList.update p Dir (files ?w2)\<rparr>)"
    using mkdtemp_fresh[of ?w2 d env] by (simp add: p)
  let ?fs3 = "AList.update p Dir fs2"
  let ?w3 = "w\<lparr>rng := Suc (Suc (rng w)), files := ?fs3\<rparr>"
  have w3: "?w2\<lparr>rng := Suc (rng ?w2), files := AList.update p Dir (files ?w2)\<rparr> = ?w3"
    by simp
  have l3: "fs_lookup ?fs3 q = (if q = p \<or> prefix q d then Some Dir else fs_lookup (files w) q)" for q
    using l2 by (auto simp: fs_lookup_update)
  have first: "io_except (mkdtemp env (Some d)) FileNotFoundError
                 (io_bind (makedirs_opt (Some d)) (\<lambda>_. mkdtemp env (Some d))) w = (Return p, ?w3)"
    using m1 m2 m3 unfolding w3 by (simp add: io_except_def io_bind_def makedirs_opt_def)
  have rootp: "?root \<noteq> p" using root pabs[of "[]"] by (auto dest: isdir_exists)
  have child: "?root @ [f] \<noteq> p \<and> \<not> prefix (?root @ [f]) d" for f
  proof
    show "?root @ [f] \<noteq> p"
    proof
      assume "?root @ [f] = p"
      then have "?root = d" by (simp add: p)
      with root absent show False by (auto dest: isdir_exists)
    qed
    show "\<not> prefix (?root @ [f]) d"
      using outside by (meson prefix_order.trans prefixI)
  qed
  have lroot: "fs_lookup ?fs3 (?root @ [f]) = fs_lookup (files w) (?root @ [f])" for f
    using child[of f] by (simp add: l3)
  have ent: "set (entries ?fs3 ?root) = set (entries (files w) ?root)"
    by (simp add: set_entries path_exists_def lroot)
  have root3: "fs_lookup (files ?w3) ?root = Some Dir"
    using root by (simp add: l3 isdir_def)
  have ls: "listdir ?root ?w3 = (Return (entries ?fs3 ?root), ?w3)"
    using root3 by (simp add: listdir_def)
  have h1: "isdir (files ?w3) p" by (simp add: isdir_def l3)
  have h3: "\<forall>g. \<not> isdir (files ?w3) (p @ [g])"
    using pabs pnp by (simp add: isdir_def l3 path_exists_def)
  have h4: "\<forall>f\<in>set (entries ?fs3 ?root). \<not> excluded f \<longrightarrow> isfile (files ?w3) (?root @ [f])"
    using regular by (simp add: ent isfile_def lroot)
  from copy_files_ok[OF h1 rootp[symmetric] h3 h4] obtain fs4 where
    c: "copy_files ?root p (entries ?fs3 ?root) ?w3 = (Return (), ?w3\<lparr>files := fs4\<rparr>)" and
    l4: "\<forall>q. fs_lookup fs4 q =
                  (if \<exists>f\<in>set (entries ?fs3 ?root). \<not> excluded f \<and> q = p @ [f]
                   then fs_lookup (files ?w3) (?root @ [last q]) else fs_lookup (files ?w3) q)"
    by blast
  have "copy_swat env self (Some d) False w =
          (Return p, w\<lparr>rng := Suc (Suc (rng w)), files := fs4\<rparr>)"
    unfolding copy_swat_def using first ls c
    by (simp add: io_bind_def io_return_def)
  moreover have "\<forall>q. fs_lookup fs4 q =
                  (if \<exists>f\<in>set (entries (files w) ?root). \<not> excluded f \<and> q = p @ [f]
                   then fs_lookup (files w) (?root @ [last q])
                   else if q = p \<or> prefix q d then Some Dir
                   else fs_lookup (files w) q)"
  proof -
    define C where "C q \<longleftrightarrow> (\<exists>f\<in>set (entries (files w) ?root). \<not> excluded f \<and> q = p @ [f])" for q
    have l4': "fs_lookup fs4 q = (if C q then fs_lookup ?fs3 (?root @ [last q]) else fs_lookup ?fs3 q)" for q
    proof -
      have e: "(\<exists>f\<in>set (entries ?fs3 ?root). \<not> excluded f \<and> q = p @ [f]) = C q"
        unfolding C_def ent ..
      have f3: "files ?w3 = ?fs3" by simp
      show ?thesis using l4[rule_format, of q] unfolding e f3 .
    qed
    have "fs_lookup fs4 q =
            (if C q then fs_lookup (files w) (?root @ [last q])
             else if q = p \<or> prefix q d then Some Dir else fs_lookup (files w) q)" for q
      unfolding l4' unfolding lroot unfolding l3 ..
    then show ?thesis unfolding C_def by blast
  qed
  ultimately show ?thesis by blast
qed

text \<open>
  Claim C10, with the conditions under which it holds.  In a well-formed file system,
  let \<open>copy_swat\<close> be called with \<open>overwrite = False\<close> and a directory \<open>d\<close> that does not
  exist, such that no ancestor of \<open>d\<close> is a regular file and \<open>d\<close> does not lie inside the
  workspace, the workspace being a directory whose entries (output files apart) are
  regular files.  Then the call does not fail.  It returns \<open>p\<close>, the directory \<open>d\<close>
  extended by the second name \<open>tempfile\<close> draws (the first one was used by the attempt
  that failed).  \<open>p\<close> did not exist before and is a directory afterwards, and so are \<open>d\<close>
  and all its ancestors.  The entries of \<open>p\<close> are exactly the entries of the workspace
  that are not excluded, each with the content it has in the workspace.
\<close>

theorem copy_swat_creates_missing_dir:
  assumes "wf_fs (files w)"
    and "\<not> path_exists (files w) d"
    and "\<forall>q\<in>set (prefixes d). \<not> isfile (files w) q"
    and "isdir (files w) (root_folder self)"
    and "\<not> prefix (root_folder self) d"
    and "\<forall>f\<in>set (entries (files w) (root_folder self)).
           \<not> excluded f \<longrightarrow> isfile (files w) (root_folder self @ [f])"
    and "p = d @ [''tmp'' @ names env (Suc (rng w))]"
  shows "\<exists>w'. copy_swat env self (Some d) False w = (Return p, w') \<and>
           \<not> path_exists (files w) p \<and> isdir (files w') p \<and>
           (\<forall>q\<in>set (prefixes d). isdir (files w') q) \<and>
           (\<forall>f. path_exists (files w') (p @ [f]) \<longleftrightarrow>
                  f \<in> set (entries (files w) (root_folder self)) \<and> \<not> excluded f) \<and>
           (\<forall>f\<in>set (entries (files w) (root_folder self)).
              \<not> excluded f \<longrightarrow>
              fs_lookup (files w') (p @ [f]) = fs_lookup (files w) (root_folder self @ [f]))"
proof -
  let ?root = "root_folder self"
  let ?E = "set (entries (files w) ?root)"
  have nofile: "\<forall>q. prefix q d \<longrightarrow> \<not> isfile (files w) q"
    using assms(3) by (simp add: in_set_prefixes)
  from copy_swat_fresh_clone[OF assms(1,2) nofile assms(4,5,6,7)] obtain fs' where
    r: "copy_swat env self (Some d) False w =
          (Return p, w\<lparr>rng := Suc (Suc (rng w)), files := fs'\<rparr>)" and
    l: "\<And>q. fs_lookup fs' q =
                  (if \<exists>f\<in>?E. \<not> excluded f \<and> q = p @ [f]
                   then fs_lookup (files w) (?root @ [last q])
                   else if q = p \<or> prefix q d then Some Dir
                   else fs_lookup (files w) q)"
    by blast
  let ?w' = "w\<lparr>rng := Suc (Suc (rng w)), files := fs'\<rparr>"
  have pabs: "\<not> path_exists (files w) (p @ r)" for r
    using wf_fs_absent_below[OF assms(1,2), of "[''tmp'' @ names env (Suc (rng w))] @ r"]
    by (simp add: assms(7))
  have pnp: "\<not> prefix (p @ r) d" for r
  proof
    assume "prefix (p @ r) d"
    then have "length (p @ r) \<le> length d" by (rule prefix_length_le)
    then show False by (simp add: assms(7))
  qed
  have c1: "\<not> path_exists (files w) p" using pabs[of "[]"] by simp
  have c2: "isdir (files ?w') p" by (simp add: isdir_def l)
  have c3: "\<forall>q\<in>set (prefixes d). isdir (files ?w') q"
  proof
    fix q assume "q \<in> set (prefixes d)"
    then have q: "prefix q d" by (simp add: in_set_prefixes)
    then have "q \<noteq> p @ [f]" for f using pnp[of "[f]"] by auto
    with q show "isdir (files ?w') q" by (simp add: isdir_def l)
  qed
  have copied: "fs_lookup fs' (p @ [f]) = fs_lookup (files w) (?root @ [f])"
    if "f \<in> ?E" "\<not> excluded f" for f
    using that by (subst l) auto
  have c4: "\<forall>f. path_exists (files ?w') (p @ [f]) \<longleftrightarrow> f \<in> ?E \<and> \<not> excluded f"
  proof
    fix f
    show "path_exists (files ?w') (p @ [f]) \<longleftrightarrow> f \<in> ?E \<and> \<not> excluded f"
    proof (cases "f \<in> ?E \<and> \<not> excluded f")
      case True
      then have "isfile (files w) (?root @ [f])" using assms(6) by blast
      then have "fs_lookup (files w) (?root @ [f]) \<noteq> None"
        by (auto simp: isfile_def split: option.splits)
      with True show ?thesis by (simp add: path_exists_def copied)
    next
      case False
      then have "\<not> (\<exists>g\<in>?E. \<not> excluded g \<and> p @ [f] = p @ [g])" by auto
      then have "fs_lookup fs' (p @ [f]) = fs_lookup (files w) (p @ [f])"
        using pnp[of "[f]"] by (subst l) auto
      with False pabs[of "[f]"] show ?thesis by (simp add: path_exists_def)
    qed
  qed
  have c5: "\<forall>f\<in>?E. \<not> excluded f \<longrightarrow>
              fs_lookup (files ?w') (p @ [f]) = fs_lookup (files w) (?root @ [f])"
    using copied by simp
  from r c1 c2 c3 c4 c5 show ?thesis by blast
qed

text \<open>The theorem at the workspace of the examples and the target \<open>/out/runs\<close>, of
  which neither component exists.\<close>

theorem copy_swat_creates_missing_dir_witness:
  "fst (copy_swat example_env example_reader (Some [''out'', ''runs'']) False example_world)
     = Return [''out'', ''runs'', ''tmpaa''] \<and>
   isdir (files (snd (copy_swat example_env example_reader (Some [''out'', ''runs'']) False
                        example_world))) [''out'', ''runs''] \<and>
   fs_lookup (files (snd (copy_swat example_env example_reader (Some [''out'', ''runs'']) False
                        example_world))) [''out'', ''runs'', ''tmpaa'', ''print.prt'']
     = Some (File ''print'') \<and>
   \<not> path_exists (files (snd (copy_swat example_env example_reader (Some [''out'', ''runs''])
                        False example_world))) [''out'', ''runs'', ''tmpaa'', ''out_day.csv'']"
proof -
  let ?d = "[''out'', ''runs'']"
  let ?p = "[''out'', ''runs'', ''tmpaa'']"
  have h1: "wf_fs (files example_world)" by code_simp
  have h2: "\<not> path_exists (files example_world) ?d" by code_simp
  have h3: "\<forall>q\<in>set (prefixes ?d). \<not> isfile (files example_world) q" by code_simp
  have h4: "isdir (files example_world) (root_folder example_reader)" by code_simp
  have h5: "\<not> prefix (root_folder example_reader) ?d" by code_simp
  have h6: "\<forall>f\<in>set (entries (files example_world) (root_folder example_reader)).
              \<not> excluded f \<longrightarrow> isfile (files example_world) (root_folder example_reader @ [f])"
    by code_simp
  have h7: "?p = ?d @ [''tmp'' @ names example_env (Suc (rng example_world))]" by code_simp
  have e1: "''print.prt'' \<in> set (entries (files example_world) (root_folder example_reader))"
    by code_simp
  have e2: "\<not> excluded ''print.prt''" by code_simp
  have e3: "fs_lookup (files example_world) (root_folder example_reader @ [''print.prt''])
              = Some (File ''print'')" by code_simp
  have e4: "excluded ''out_day.csv''" by code_simp
  have e5: "?d \<in> set (prefixes ?d)" by simp
  from copy_swat_creates_missing_dir[OF h1 h2 h3 h4 h5 h6 h7] obtain w' where
    r: "copy_swat example_env example_reader (Some ?d) False example_world = (Return ?p, w')" and
    dirs: "\<forall>q\<in>set (prefixes ?d). isdir (files w') q" and
    ex: "\<forall>f. path_exists (files w') (?p @ [f]) \<longleftrightarrow>
              f \<in> set (entries (files example_world) (root_folder example_reader)) \<and> \<not> excluded f" and
    cp: "\<forall>f\<in>set (entries (files example_world) (root_folder example_reader)).
              \<not> excluded f \<longrightarrow>
              fs_lookup (files w') (?p @ [f]) =
              fs_lookup (files example_world) (root_folder example_reader @ [f])"
    by blast
  have "isdir (files w') ?d" using dirs e5 by blast
  moreover have "fs_lookup (files w') (?p @ [''print.prt'']) = Some (File ''print'')"
    using cp e1 e2 e3 by auto
  moreover have "\<not> path_exists (files w') (?p @ [''out_day.csv''])"
    using ex e4 by blast
  ultimately show ?thesis using r by simp
qed

text \<open>Claim C10 as it is stated fails: \<open>/f/x\<close> does not exist, but \<open>/f\<close> is a regular
  file.  \<open>mkdtemp\<close> raises \<open>NotADirectoryError\<close>, which \<open>except FileNotFoundError\<close> does
  not catch.\<close>

theorem copy_swat_below_a_file_counterexample:
  "\<not> path_exists (files example_world) [''f'', ''x''] \<and>
   fst (copy_swat example_env example_reader (Some [''f'', ''x'']) False example_world)
     = Raise NotADirectoryError"
  by code_simp

text \<open>It fails as well for a target inside the workspace: the directory \<open>/ws/runs\<close> is
  created, then listed among the files to copy, and \<open>copy2\<close> raises on a directory.\<close>

lemma copy_swat_inside_workspace:
  "\<not> path_exists (files example_world) [''ws'', ''runs''] \<and>
   fst (copy_swat example_env example_reader (Some [''ws'', ''runs'']) False example_world)
     = Raise IsADirectoryError"
  by code_simp

section \<open>The order of the results of run_parallel_swat\<close>

lemma io_bind_Return_iff:
  "io_bind m f w = (Return b, w') \<longleftrightarrow> (\<exists>a w1. m w = (Return a, w1) \<and> f a w1 = (Return b, w'))"
  by (auto simp: io_bind_def split: prod.splits outcome.splits)

lemma io_bind_return_right: "io_bind m io_return = m"
  by (rule ext) (auto simp: io_bind_def io_return_def split: prod.splits outcome.splits)

lemma io_bind_assoc: "io_bind (io_bind m f) g = io_bind m (\<lambda>a. io_bind (f a) g)"
  by (rule ext) (auto simp: io_bind_def split: prod.splits outcome.splits)

lemma io_bind_return_left: "io_bind (io_return a) f = f a"
  by (rule ext) (simp add: io_bind_def io_return_def)

lemma run_all_eq:
  "run_all env self dir ps acc =
     io_bind (run_sequentially (\<lambda>p. copy_and_run env self dir False p [] False) ps)
       (\<lambda>rs. io_return (acc @ rs))"
proof (induction ps arbitrary: acc)
  case Nil
  show ?case by (simp add: io_bind_return_left)
next
  case (Cons p ps)
  show ?case
    by (simp add: Cons.IH io_bind_assoc io_bind_return_left)
qed

lemma run_sequentially_Cons_Return:
  "run_sequentially task (i # items) w = (Return rs, w') \<longleftrightarrow>
     (\<exists>r rs' w1. rs = r # rs' \<and> task i w = (Return r, w1) \<and>
                 run_sequentially task items w1 = (Return rs', w'))"
  by (auto simp: io_bind_Return_iff io_return_def)

lemma run_sequentially_length:
  "run_sequentially task xs w = (Return rs, w') \<Longrightarrow> length rs = length xs"
proof (induction xs arbitrary: rs w)
  case Nil
  then show ?case by (simp add: io_return_def)
next
  case (Cons x xs)
  then show ?case
    by (auto simp: run_sequentially_Cons_Return simp del: run_sequentially.simps)
qed

lemma run_sequentially_nth:
  "run_sequentially task xs w = (Return rs, w') \<Longrightarrow> k < length xs \<Longrightarrow>
     \<exists>wk wk'. task (xs ! k) wk = (Return (rs ! k), wk')"
proof (induction xs arbitrary: rs w k)
  case Nil
  then show ?case by simp
next
  case (Cons x xs)
  from Cons.prems(1) obtain r rs' w1 where
    rs: "rs = r # rs'" and t: "task x w = (Return r, w1)" and
    rest: "run_sequentially task xs w1 = (Return rs', w')"
    by (auto simp: run_sequentially_Cons_Return simp del: run_sequentially.simps)
  show ?case
  proof (cases k)
    case 0
    with t rs show ?thesis by auto
  next
    case (Suc j)
    with Cons.prems(2) have "j < length xs" by simp
    from Cons.IH[OF rest this] Suc rs show ?thesis by simp
  qed
qed

lemma run_sequentially_map:
  "run_sequentially f (map g xs) = run_sequentially (\<lambda>x. f (g x)) xs"
  by (induction xs) simp_all

lemma completion_order_props:
  "length (completion_order ps rs) = length rs \<and>
   set (completion_order ps rs) = set rs \<and>
   (distinct rs \<longrightarrow> distinct (completion_order ps rs))"
proof (induction ps rs rule: completion_order.induct)
  case (1 ps)
  show ?case by simp
next
  case (2 ps r rs)
  define k where "k = (case ps of [] \<Rightarrow> 0 | p # _ \<Rightarrow> p mod length (r # rs))"
  define rest where "rest = take k (r # rs) @ drop (Suc k) (r # rs)"
  have k: "k < length (r # rs)"
    unfolding k_def by (cases ps) simp_all
  have split: "r # rs = take k (r # rs) @ ((r # rs) ! k) # drop (Suc k) (r # rs)"
    using k by (rule id_take_nth_drop)
  have IH: "length (completion_order (tl ps) rest) = length rest \<and>
            set (completion_order (tl ps) rest) = set rest \<and>
            (distinct rest \<longrightarrow> distinct (completion_order (tl ps) rest))"
    using "2.IH"[OF k_def] unfolding rest_def .
  have co: "completion_order ps (r # rs) = ((r # rs) ! k) # completion_order (tl ps) rest"
    by (simp add: k_def rest_def Let_def)
  have len: "length rest = length rs"
    using k unfolding rest_def by (simp add: min_def)
  have "set (r # rs) = insert ((r # rs) ! k) (set rest)"
    by (subst split) (auto simp: rest_def)
  moreover have "distinct (r # rs) \<Longrightarrow> (r # rs) ! k \<notin> set rest \<and> distinct rest"
  proof -
    assume "distinct (r # rs)"
    then have "distinct (take k (r # rs) @ ((r # rs) ! k) # drop (Suc k) (r # rs))"
      using split by simp
    then show ?thesis unfolding rest_def by auto
  qed
  ultimately show ?case
    unfolding co using IH len by auto
qed

lemma client_run_frame:
  "client_run fn items order fs w = (Return fs', w') \<Longrightarrow>
     length fs' = length fs \<and> (\<forall>i. i \<notin> set order \<longrightarrow> fs' ! i = fs ! i)"
proof (induction order arbitrary: fs w)
  case Nil
  then show ?case by simp
next
  case (Cons i order)
  from Cons.prems obtain o1 w1 where o: "fn (items ! i) w = (o1, w1)" by (cases "fn (items ! i) w")
  show ?case
  proof (cases o1)
    case (Return a)
    with o Cons.prems have "client_run fn items order (fs[i := Some (Inr a)]) w1 = (Return fs', w')"
      by simp
    from Cons.IH[OF this] show ?thesis by auto
  next
    case (Raise e)
    with o Cons.prems have "client_run fn items order (fs[i := Some (Inl e)]) w1 = (Return fs', w')"
      by simp
    from Cons.IH[OF this] show ?thesis by auto
  next
    case Hang
    with o Cons.prems show ?thesis by simp
  qed
qed

lemma client_run_returned:
  assumes "distinct order" "\<forall>i\<in>set order. i < length fs"
    "client_run fn items order fs w = (Return fs', w')"
    "\<forall>i\<in>set order. fs' ! i = Some (Inr (rs ! i))"
  shows "run_sequentially fn (map ((!) items) order) w = (Return (map ((!) rs) order), w')"
  using assms
proof (induction order arbitrary: fs w)
  case Nil
  then show ?case by (simp add: io_return_def)
next
  case (Cons i order)
  obtain o1 w1 where o: "fn (items ! i) w = (o1, w1)" by (cases "fn (items ! i) w")
  have i: "i \<notin> set order" "i < length fs" using Cons.prems(1,2) by auto
  have fi: "fs' ! i = Some (Inr (rs ! i))" using Cons.prems(4) by simp
  show ?case
  proof (cases o1)
    case (Return a)
    with o Cons.prems(3) have
      r: "client_run fn items order (fs[i := Some (Inr a)]) w1 = (Return fs', w')"
      by simp
    from client_run_frame[OF r] i have "fs' ! i = Some (Inr a)" by simp
    with fi have a: "a = rs ! i" by simp
    have "run_sequentially fn (map ((!) items) order) w1 = (Return (map ((!) rs) order), w')"
      using Cons.prems(1,2,4) by (intro Cons.IH[OF _ _ r]) auto
    with o Return a show ?thesis
      by (simp add: run_sequentially_Cons_Return del: run_sequentially.simps)
  next
    case (Raise e)
    with o Cons.prems(3) have
      r: "client_run fn items order (fs[i := Some (Inl e)]) w1 = (Return fs', w')"
      by simp
    from client_run_frame[OF r] i have "fs' ! i = Some (Inl e)" by simp
    with fi show ?thesis by simp
  next
    case Hang
    with o Cons.prems(3) show ?thesis by simp
  qed
qed

lemma client_run_returns:
  assumes "run_sequentially fn (map ((!) items) order) w = (Return (map ((!) rs) order), w')"
  shows "\<exists>fs'. client_run fn items order fs w = (Return fs', w') \<and> length fs' = length fs \<and>
           (\<forall>i<length fs. fs' ! i = (if i \<in> set order then Some (Inr (rs ! i)) else fs ! i))"
  using assms
proof (induction order arbitrary: fs w)
  case Nil
  then show ?case by (simp add: io_return_def)
next
  case (Cons i order)
  from Cons.prems obtain w1 where
    t: "fn (items ! i) w = (Return (rs ! i), w1)" and
    rest: "run_sequentially fn (map ((!) items) order) w1 = (Return (map ((!) rs) order), w')"
    by (auto simp: run_sequentially_Cons_Return simp del: run_sequentially.simps)
  from Cons.IH[OF rest, of "fs[i := Some (Inr (rs ! i))]"] obtain fs' where
    r: "client_run fn items order (fs[i := Some (Inr (rs ! i))]) w1 = (Return fs', w')" and
    l: "length fs' = length fs" and
    n: "\<forall>j<length fs. fs' ! j = (if j \<in> set order then Some (Inr (rs ! j))
                                 else fs[i := Some (Inr (rs ! i))] ! j)"
    by auto
  have "client_run fn items (i # order) fs w = (Return fs', w')"
    using t r by simp
  moreover have "\<forall>j<length fs. fs' ! j = (if j \<in> set (i # order) then Some (Inr (rs ! j)) else fs ! j)"
    using n by (auto simp: nth_list_update)
  ultimately show ?case using l by blast
qed

lemma client_gather_Return_iff:
  "client_gather fs w = (Return rs, w') \<longleftrightarrow> fs = map (\<lambda>a. Some (Inr a)) rs \<and> w' = w"
proof (induction fs arbitrary: rs rule: client_gather.induct)
  case 1
  show ?case by (auto simp: io_return_def)
next
  case (2 futures)
  show ?case by auto
next
  case (3 e futures)
  show ?case by (auto simp: io_raise_def)
next
  case (4 a futures)
  show ?case
    by (cases rs) (auto simp: io_bind_Return_iff io_return_def 4)
qed

lemma run_parallel_swat_local:
  "run_parallel_swat env self params n_workers dir None =
     run_sequentially (\<lambda>p. copy_and_run env self dir False p [] False) params"
  by (simp add: run_parallel_swat_def Let_def run_all_eq io_bind_return_right)

lemma run_parallel_swat_client:
  assumes "order = completion_order (picks c) [0 ..< length params]"
  shows "(run_parallel_swat env self params n_workers dir (Some c) w = (Return rs, w')) =
           (length rs = length params \<and>
            run_sequentially (\<lambda>p. copy_and_run_star env self (dir, False, p, False))
              (map ((!) params) order) w = (Return (map ((!) rs) order), w'))"
proof -
  let ?g = "\<lambda>p. (dir, False, p, False)"
  let ?fn = "copy_and_run_star env self"
  let ?items = "map ?g params"
  let ?N = "length params"
  have props: "length order = ?N" "set order = {..<?N}" "distinct order"
    using completion_order_props[of "picks c" "[0 ..< ?N]"] assms by (auto simp: lessThan_atLeast0)
  have items: "map ((!) ?items) order = map ?g (map ((!) params) order)"
    using props(2) by auto
  have seq: "run_sequentially ?fn (map ((!) ?items) order) =
             run_sequentially (\<lambda>p. ?fn (?g p)) (map ((!) params) order)"
    unfolding items by (rule run_sequentially_map)
  have run: "run_parallel_swat env self params n_workers dir (Some c) =
               io_bind (client_run ?fn ?items order (replicate ?N None)) client_gather"
    by (simp add: run_parallel_swat_def Let_def client_map_def assms)
  show ?thesis
  proof
    assume "run_parallel_swat env self params n_workers dir (Some c) w = (Return rs, w')"
    then obtain fs' w1 where
      cr: "client_run ?fn ?items order (replicate ?N None) w = (Return fs', w1)" and
      cg: "client_gather fs' w1 = (Return rs, w')"
      unfolding run by (auto simp: io_bind_Return_iff)
    from cg have fs': "fs' = map (\<lambda>a. Some (Inr a)) rs" and w1: "w1 = w'"
      by (simp_all add: client_gather_Return_iff)
    from client_run_frame[OF cr] have len: "length rs = ?N" by (simp add: fs')
    have "run_sequentially ?fn (map ((!) ?items) order) w = (Return (map ((!) rs) order), w')"
    proof (rule client_run_returned[OF props(3) _ cr[unfolded w1]])
      show "\<forall>i\<in>set order. i < length (replicate ?N None)" using props(2) by simp
      show "\<forall>i\<in>set order. fs' ! i = Some (Inr (rs ! i))"
        using props(2) len by (simp add: fs')
    qed
    with len show "length rs = ?N \<and>
        run_sequentially (\<lambda>p. ?fn (?g p)) (map ((!) params) order) w
          = (Return (map ((!) rs) order), w')"
      by (simp add: seq)
  next
    assume a: "length rs = ?N \<and>
        run_sequentially (\<lambda>p. ?fn (?g p)) (map ((!) params) order) w
          = (Return (map ((!) rs) order), w')"
    then have "run_sequentially ?fn (map ((!) ?items) order) w = (Return (map ((!) rs) order), w')"
      by (simp add: seq)
    from client_run_returns[OF this, of "replicate ?N None"] obtain fs' where
      cr: "client_run ?fn ?items order (replicate ?N None) w = (Return fs', w')" and
      l: "length fs' = ?N" and
      n: "\<forall>i<?N. fs' ! i = (if i \<in> set order then Some (Inr (rs ! i)) else replicate ?N None ! i)"
      by auto
    have "fs' = map (\<lambda>a. Some (Inr a)) rs"
    proof (rule nth_equalityI)
      show "length fs' = length (map (\<lambda>a. Some (Inr a)) rs)" using l a by simp
    next
      fix i assume "i < length fs'"
      then show "fs' ! i = map (\<lambda>a. Some (Inr a)) rs ! i"
        using n l a props(2) by simp
    qed
    then have "client_gather fs' w' = (Return rs, w')"
      by (simp add: client_gather_Return_iff)
    with cr show "run_parallel_swat env self params n_workers dir (Some c) w = (Return rs, w')"
      unfolding run by (auto simp: io_bind_Return_iff)
  qed
qed

text \<open>
  Claim C1.  Let \<open>task\<close> be the run \<open>run_parallel_swat\<close> makes for one parameter set
  (\<open>copy_and_run\<close> in the loop, \<open>copy_and_run_star\<close> on the tuple given to the client),
  and \<open>order\<close> the order in which the runs are completed: the order of the list in
  the loop, the order the client chooses otherwise.  Then \<open>order\<close> is a permutation of
  the indices of \<open>params\<close>, whatever the client chooses; the call returns the list
  \<open>rs\<close> exactly when \<open>rs\<close> has the length of \<open>params\<close> and the runs, made one after the
  other in the order of completion, all return, the run for \<open>params ! i\<close> returning
  \<open>rs ! i\<close>; and so, when the call returns \<open>rs\<close>, every \<open>rs ! i\<close> is the path returned by a
  run for \<open>params ! i\<close>.
\<close>

theorem run_parallel_swat_results_in_input_order:
  assumes "task = (case client of
                     None \<Rightarrow> (\<lambda>p. copy_and_run env self dir False p [] False)
                   | Some c \<Rightarrow> (\<lambda>p. copy_and_run_star env self (dir, False, p, False)))"
    and "order = (case client of
                    None \<Rightarrow> [0 ..< length params]
                  | Some c \<Rightarrow> completion_order (picks c) [0 ..< length params])"
  shows "distinct order \<and> set order = {..<length params} \<and>
         ((run_parallel_swat env self params n_workers dir client w = (Return rs, w')) =
            (length rs = length params \<and>
             run_sequentially task (map ((!) params) order) w
               = (Return (map ((!) rs) order), w'))) \<and>
         (run_parallel_swat env self params n_workers dir client w = (Return rs, w') \<longrightarrow>
            (\<forall>i<length params. \<exists>wi wi'. task (params ! i) wi = (Return (rs ! i), wi')))"
proof -
  let ?N = "length params"
  have perm: "distinct order \<and> set order = {..<?N}"
  proof (cases client)
    case None
    with assms(2) show ?thesis by (auto simp: lessThan_atLeast0)
  next
    case (Some c)
    with assms(2) completion_order_props[of "picks c" "[0 ..< ?N]"] show ?thesis
      by (auto simp: lessThan_atLeast0)
  qed
  have iff: "(run_parallel_swat env self params n_workers dir client w = (Return rs, w')) =
            (length rs = ?N \<and>
             run_sequentially task (map ((!) params) order) w
               = (Return (map ((!) rs) order), w'))"
  proof (cases client)
    case None
    then have t: "task = (\<lambda>p. copy_and_run env self dir False p [] False)"
      and o: "order = [0 ..< ?N]" using assms by simp_all
    have p: "map ((!) params) [0 ..< ?N] = params" by (rule map_nth)
    show ?thesis
    proof
      assume a: "run_parallel_swat env self params n_workers dir client w = (Return rs, w')"
      then have s: "run_sequentially task params w = (Return rs, w')"
        unfolding None run_parallel_swat_local t .
      from run_sequentially_length[OF s] have len: "length rs = ?N" .
      then have "map ((!) rs) [0 ..< ?N] = rs" using map_nth[of rs] by simp
      with s len show "length rs = ?N \<and>
             run_sequentially task (map ((!) params) order) w
               = (Return (map ((!) rs) order), w')"
        unfolding o p by simp
    next
      assume a: "length rs = ?N \<and>
             run_sequentially task (map ((!) params) order) w
               = (Return (map ((!) rs) order), w')"
      then have "map ((!) rs) [0 ..< ?N] = rs" using map_nth[of rs] by simp
      with a have "run_sequentially task params w = (Return rs, w')"
        unfolding o p by simp
      then show "run_parallel_swat env self params n_workers dir client w = (Return rs, w')"
        unfolding None run_parallel_swat_local t .
    qed
  next
    case (Some c)
    then have t: "task = (\<lambda>p. copy_and_run_star env self (dir, False, p, False))"
      and o: "order = completion_order (picks c) [0 ..< ?N]" using assms by simp_all
    show ?thesis unfolding Some t by (rule run_parallel_swat_client[OF o])
  qed
  have each: "\<forall>i<?N. \<exists>wi wi'. task (params ! i) wi = (Return (rs ! i), wi')"
    if r: "run_parallel_swat env self params n_workers dir client w = (Return rs, w')"
  proof (intro allI impI)
    fix i assume i: "i < ?N"
    from r iff have s: "run_sequentially task (map ((!) params) order) w
               = (Return (map ((!) rs) order), w')" by simp
    from i perm have "i \<in> set order" by simp
    then obtain k where k: "k < length order" "order ! k = i"
      by (auto simp: in_set_conv_nth)
    from run_sequentially_nth[OF s, of k] k
    show "\<exists>wi wi'. task (params ! i) wi = (Return (rs ! i), wi')" by simp
  qed
  from perm iff each show ?thesis by blast
qed

text \<open>The theorem at two parameter sets and a client that completes the second run
  first: the clone of the second run draws the first name, and the list returned
  has it in second place.\<close>

theorem run_parallel_swat_results_in_input_order_witness:
  "fst (run_parallel_swat example_env example_reader
          [[], [(''print.prt'', ''name'', [])]] 3 (Some [''out''])
          (Some (Client [1])) example_world)
     = Return [[''out'', ''tmpaaa''], [''out'', ''tmpaa'']] \<and>
   fst (run_sequentially
          (\<lambda>p. copy_and_run_star example_env example_reader (Some [''out''], False, p, False))
          [[(''print.prt'', ''name'', [])], []] example_world)
     = Return [[''out'', ''tmpaa''], [''out'', ''tmpaaa'']]"
proof -
  let ?params = "[[], [(''print.prt'', ''name'', [])]] :: params list"
  let ?R = "[[''out'', ''tmpaaa''], [''out'', ''tmpaa'']]"
  let ?c = "Some (Client [1])"
  let ?run = "run_parallel_swat example_env example_reader ?params 3 (Some [''out''])
                 ?c example_world"
  have ec: "fst ?run = Return ?R" by code_simp
  have oc: "[1, 0] = (case ?c of None \<Rightarrow> [0 ..< length ?params]
                      | Some c \<Rightarrow> completion_order (picks c) [0 ..< length ?params])"
    by code_simp
  from ec have "?run = (Return ?R, snd ?run)" by (simp add: prod_eq_iff)
  with run_parallel_swat_results_in_input_order[OF refl oc,
         where env = example_env and self = example_reader and dir = "Some [''out'']"
           and n_workers = 3 and w = example_world and rs = ?R and w' = "snd ?run"]
  have "run_sequentially
          (\<lambda>p. copy_and_run_star example_env example_reader (Some [''out''], False, p, False))
          (map ((!) ?params) [1, 0]) example_world
        = (Return (map ((!) ?R) [1, 0]), snd ?run)"
    by simp
  then have "fst (run_sequentially
          (\<lambda>p. copy_and_run_star example_env example_reader (Some [''out''], False, p, False))
          [[(''print.prt'', ''name'', [])], []] example_world)
        = Return [[''out'', ''tmpaa''], [''out'', ''tmpaaa'']]"
    by simp
  with ec show ?thesis by simp
qed

end
